theory Spec2Isabelle
  imports Complex_Main "HOL-Library.Sublist"
begin

section \<open>Floating-point values\<close>

text \<open>
  The filter computes with C++ \<^verbatim>\<open>float\<close> (binary32) and \<^verbatim>\<open>double\<close> (binary64).
  A value is a rational, the negative zero, an infinity or a NaN; \<open>Fin 0\<close> is the
  positive zero. Every operation computes the exact result and rounds it to the
  format, to nearest with ties to even, as IEEE 754 prescribes. A negative result too
  small for the format becomes the negative zero; the sign of a zero shows in a
  division by it.
\<close>

datatype fp = Fin rat | NegZero | PInf | NInf | NaN

record fp_format =
  fmt_prec :: int
  fmt_emin :: int
  fmt_emax :: int

definition binary32 :: fp_format where
  "binary32 = \<lparr>fmt_prec = 24, fmt_emin = - 126, fmt_emax = 127\<rparr>"

definition binary64 :: fp_format where
  "binary64 = \<lparr>fmt_prec = 53, fmt_emin = - 1022, fmt_emax = 1023\<rparr>"

function bit_length :: "int \<Rightarrow> int" where
  "bit_length n = (if n \<le> 0 then 0 else 1 + bit_length (n div 2))"
  by pat_completeness auto
termination
  by (relation "measure nat") auto

declare bit_length.simps [simp del]

function pow2n :: "int \<Rightarrow> rat" where
  "pow2n e = (if e \<le> 0 then 1
              else let h = pow2n (e div 2) in if even e then h * h else 2 * h * h)"
  by pat_completeness auto
termination
  by (relation "measure nat") auto

declare pow2n.simps [simp del]

definition pow2 :: "int \<Rightarrow> rat" where
  "pow2 e = (if 0 \<le> e then pow2n e else 1 / pow2n (- e))"

text \<open>The exponent of a positive rational: the \<open>e\<close> with \<open>2^e \<le> a < 2^(e+1)\<close>.\<close>

definition ilog2 :: "rat \<Rightarrow> int" where
  "ilog2 a =
     (let (p, q) = quotient_of a;
          d = bit_length p - bit_length q
      in if pow2 d \<le> a then d else d - 1)"

definition round_half_even :: "rat \<Rightarrow> int" where
  "round_half_even q =
     (let f = \<lfloor>q\<rfloor>; d = q - of_int f
      in if d < 1 / 2 then f
         else if 1 / 2 < d then f + 1
         else if even f then f else f + 1)"

text \<open>The zero and the infinity of a given sign (\<open>True\<close> is negative).\<close>

definition fp_zero :: "bool \<Rightarrow> fp" where
  "fp_zero neg = (if neg then NegZero else Fin 0)"

definition fp_inf :: "bool \<Rightarrow> fp" where
  "fp_inf neg = (if neg then NInf else PInf)"

text \<open>
  Rounding of an exact result. An exact zero is given here as the positive zero; the
  operations below decide the sign of an exact zero themselves.
\<close>

definition fp_round :: "fp_format \<Rightarrow> rat \<Rightarrow> fp" where
  "fp_round fmt x =
     (if x = 0 then Fin 0
      else
        let a = \<bar>x\<bar>;
            e = max (ilog2 a) (fmt_emin fmt);
            u = pow2 (e - fmt_prec fmt + 1);
            m = of_int (round_half_even (a / u)) * u
        in if pow2 (fmt_emax fmt + 1) \<le> m then fp_inf (x < 0)
           else if m = 0 then fp_zero (x < 0)
           else Fin (if 0 < x then m else - m))"

text \<open>
  The values of a format are whole multiples of its smallest subnormal,
  \<open>2^(emin - prec + 1)\<close>.
\<close>

definition on_grid :: "fp_format \<Rightarrow> rat \<Rightarrow> bool" where
  "on_grid fmt y \<longleftrightarrow> (\<exists>k::int. y = of_int k * pow2 (fmt_emin fmt - fmt_prec fmt + 1))"

text \<open>Conversion between formats (\<^verbatim>\<open>float\<close> to \<^verbatim>\<open>double\<close> and back).\<close>

definition fp_cvt :: "fp_format \<Rightarrow> fp \<Rightarrow> fp" where
  "fp_cvt fmt a = (case a of Fin r \<Rightarrow> fp_round fmt r | _ \<Rightarrow> a)"

text \<open>The sign bit of a value, and the rational it stands for when it is finite.\<close>

fun fp_sign :: "fp \<Rightarrow> bool" where
  "fp_sign (Fin r) = (r < 0)"
| "fp_sign NegZero = True"
| "fp_sign PInf = False"
| "fp_sign NInf = True"
| "fp_sign NaN = False"

fun fp_finite :: "fp \<Rightarrow> rat option" where
  "fp_finite (Fin r) = Some r"
| "fp_finite NegZero = Some 0"
| "fp_finite a = None"

text \<open>
  A sum that is exactly zero is the positive zero, unless both operands are the
  negative zero.
\<close>

fun fp_add :: "fp_format \<Rightarrow> fp \<Rightarrow> fp \<Rightarrow> fp" where
  "fp_add fmt NaN b = NaN"
| "fp_add fmt a NaN = NaN"
| "fp_add fmt PInf NInf = NaN"
| "fp_add fmt NInf PInf = NaN"
| "fp_add fmt PInf b = PInf"
| "fp_add fmt a PInf = PInf"
| "fp_add fmt NInf b = NInf"
| "fp_add fmt a NInf = NInf"
| "fp_add fmt NegZero NegZero = NegZero"
| "fp_add fmt NegZero (Fin y) = fp_round fmt y"
| "fp_add fmt (Fin x) NegZero = fp_round fmt x"
| "fp_add fmt (Fin x) (Fin y) = fp_round fmt (x + y)"

text \<open>
  The sign of a product or a quotient is the exclusive or of the signs of the
  operands, also when the result is a zero or an infinity.
\<close>

definition fp_mul :: "fp_format \<Rightarrow> fp \<Rightarrow> fp \<Rightarrow> fp" where
  "fp_mul fmt a b =
     (if a = NaN \<or> b = NaN then NaN
      else
        let s = (fp_sign a \<noteq> fp_sign b)
        in case (fp_finite a, fp_finite b) of
             (Some x, Some y) \<Rightarrow> if x * y = 0 then fp_zero s else fp_round fmt (x * y)
           | (Some x, None) \<Rightarrow> if x = 0 then NaN else fp_inf s
           | (None, Some y) \<Rightarrow> if y = 0 then NaN else fp_inf s
           | (None, None) \<Rightarrow> fp_inf s)"

definition fp_div :: "fp_format \<Rightarrow> fp \<Rightarrow> fp \<Rightarrow> fp" where
  "fp_div fmt a b =
     (if a = NaN \<or> b = NaN then NaN
      else
        let s = (fp_sign a \<noteq> fp_sign b)
        in case (fp_finite a, fp_finite b) of
             (Some x, Some y) \<Rightarrow>
               if y = 0 then (if x = 0 then NaN else fp_inf s)
               else if x = 0 then fp_zero s
               else fp_round fmt (x / y)
           | (Some x, None) \<Rightarrow> fp_zero s
           | (None, Some y) \<Rightarrow> fp_inf s
           | (None, None) \<Rightarrow> NaN)"

text \<open>
  C++ converts a floating-point value to \<^verbatim>\<open>int\<close> by discarding the fractional part
  (truncation toward zero); the behaviour is undefined when the truncated value is
  not representable in \<^verbatim>\<open>int\<close> (32 bits), which includes the infinities and NaN.
  \<open>None\<close> stands for the undefined case.
\<close>

definition INT_MAX :: int where
  "INT_MAX = 2147483647"

definition INT_MIN :: int where
  "INT_MIN = - 2147483648"

definition trunc_toward_zero :: "rat \<Rightarrow> int" where
  "trunc_toward_zero r = (if 0 \<le> r then \<lfloor>r\<rfloor> else \<lceil>r\<rceil>)"

definition float_to_int :: "fp \<Rightarrow> int option" where
  "float_to_int a =
     (case fp_finite a of
        Some r \<Rightarrow>
          (let z = trunc_toward_zero r
           in if INT_MIN \<le> z \<and> z \<le> INT_MAX then Some z else None)
      | None \<Rightarrow> None)"

definition float_of_int :: "int \<Rightarrow> fp" where
  "float_of_int v = fp_round binary32 (of_int v)"

section \<open>Host data: formats, planes, frames, clips\<close>

text \<open>
  The fields of the host's \<^verbatim>\<open>VSFormat\<close> and \<^verbatim>\<open>VSVideoInfo\<close> that the filter reads.
  A clip of variable format has a null format pointer in its video info.
\<close>

record VSFormat =
  numPlanes :: int
  bitsPerSample :: int
  bytesPerSample :: int

record VSVideoInfo =
  vi_format :: "VSFormat option"
  vi_width :: int
  vi_height :: int
  vi_numFrames :: int

text \<open>
  A plane buffer: its geometry (the stride in bytes) and its samples, one list entry
  per sample of the plane's sample type, row after row at the pitch
  \<open>stride div sizeof(T)\<close>. A frame refers to its planes by their addresses in the
  host's store of plane buffers, so that two frames can share one buffer.
\<close>

record plane =
  p_stride :: nat
  p_width :: nat
  p_height :: nat
  p_data :: "nat list"

record VSFrameRef =
  f_format :: VSFormat
  f_planes :: "nat list"

type_synonym store = "plane list"

record VSNodeRef =
  node_vi :: VSVideoInfo
  node_frames :: "int \<Rightarrow> VSFrameRef"

section \<open>Plane selection: \<^verbatim>\<open>getPlanesArg\<close>\<close>

datatype runtime_error = WeightsNotOdd | PlaneOutOfRange | PlaneTwice

fun what :: "runtime_error \<Rightarrow> string" where
  "what WeightsNotOdd = ''Number of weights must be odd''"
| "what PlaneOutOfRange = ''plane index out of range''"
| "what PlaneTwice = ''plane specified twice''"

text \<open>
  The host's \<^verbatim>\<open>propNumElements\<close> is -1 for a key that the argument map does not
  hold, and the number of elements otherwise. \<^verbatim>\<open>int64ToIntS\<close> (VSHelper.h) saturates
  a 64-bit value to the range of \<^verbatim>\<open>int\<close>.
\<close>

definition propNumElements :: "'a list option \<Rightarrow> int" where
  "propNumElements v = (case v of None \<Rightarrow> - 1 | Some xs \<Rightarrow> int (length xs))"

definition int64ToIntS :: "int \<Rightarrow> int" where
  "int64ToIntS i = (if i > INT_MAX then INT_MAX else if i < INT_MIN then INT_MIN else i)"

text \<open>The second loop of \<^verbatim>\<open>getPlanesArg\<close>, over the elements of the key "planes".\<close>

fun planes_loop :: "int list \<Rightarrow> bool list \<Rightarrow> runtime_error + bool list" where
  "planes_loop [] process = Inr process"
| "planes_loop (x # xs) process =
     (let pl = int64ToIntS x
      in if pl < 0 \<or> pl \<ge> 3 then Inl PlaneOutOfRange
         else if process ! nat pl then Inl PlaneTwice
         else planes_loop xs (process[nat pl := True]))"

definition getPlanesArg :: "int list option \<Rightarrow> runtime_error + bool list" where
  "getPlanesArg planes =
     (let m = propNumElements planes
      in planes_loop (case planes of None \<Rightarrow> [] | Some xs \<Rightarrow> xs) (replicate 3 (m \<le> 0)))"

section \<open>Filter construction: \<^verbatim>\<open>frameBlendCreate\<close>\<close>

text \<open>
  The instance data. \<^verbatim>\<open>bool process[3]\<close> is a list; the one that construction yields
  has three entries.
\<close>

record FrameBlendData =
  d_node :: VSNodeRef
  d_vi :: VSVideoInfo
  weightPercents :: "fp list"
  process :: "bool list"

text \<open>The argument map of a call: the keys the function reads.\<close>

record VSMap =
  arg_clip :: VSNodeRef
  arg_weights :: "fp list option"
  arg_planes :: "int list option"

text \<open>C++ \<^verbatim>\<open>%\<close> truncates toward zero: \<^verbatim>\<open>-1 % 2\<close> is -1.\<close>

definition c_rem :: "int \<Rightarrow> int \<Rightarrow> int" where
  "c_rem a b = sgn a * (\<bar>a\<bar> mod \<bar>b\<bar>)"

text \<open>
  \<^verbatim>\<open>totalWeights\<close> is a \<^verbatim>\<open>float\<close> and the weights are read as \<^verbatim>\<open>double\<close>: each
  addition is done in binary64 and stored back as binary32; each quotient is
  computed in binary64 and stored in the \<^verbatim>\<open>float\<close> vector.
\<close>

definition totalWeights :: "fp list \<Rightarrow> fp" where
  "totalWeights ws = foldl (\<lambda>t w. fp_cvt binary32 (fp_add binary64 t w)) (Fin 0) ws"

definition scale_weights :: "fp list \<Rightarrow> fp list" where
  "scale_weights ws =
     map (\<lambda>w. fp_cvt binary32 (fp_div binary64 w (totalWeights ws))) ws"

text \<open>
  The outcome of the call: either the error set on the output map, with the node
  that the handler released (none when the exception came before the clip was
  read), or the filter instance handed to \<^verbatim>\<open>createFilter\<close>, with the weights
  written to the debug log.
\<close>

datatype create_result =
  SetError string "VSNodeRef option"
| CreateFilter FrameBlendData "fp list"

definition frameBlendCreate :: "VSMap \<Rightarrow> create_result" where
  "frameBlendCreate args =
     (let numWeights = propNumElements (arg_weights args)
      in if c_rem numWeights 2 \<noteq> 1
         then SetError (''FrameBlend: '' @ what WeightsNotOdd) None
         else
           let node = arg_clip args;
               vi = node_vi node;
               ws = scale_weights (case arg_weights args of None \<Rightarrow> [] | Some xs \<Rightarrow> xs)
           in case getPlanesArg (arg_planes args) of
                Inl e \<Rightarrow> SetError (''FrameBlend: '' @ what e) (Some node)
              | Inr pr \<Rightarrow>
                  CreateFilter
                    \<lparr>d_node = node, d_vi = vi, weightPercents = ws, process = pr\<rparr> ws)"

section \<open>Registration: \<^verbatim>\<open>VapourSynthPluginInit\<close>\<close>

text \<open>
  The argument string registered for \<^verbatim>\<open>FrameBlend\<close>. The host reads it as a list of
  entries separated by \<open>;\<close>, each \<open>name:type[:flag]\<close>, and refuses a call that
  passes a key the string does not declare.
\<close>

definition registered_args :: string where
  "registered_args = ''clip:clip;weights:float[]''"

fun split_on :: "char \<Rightarrow> string \<Rightarrow> string list" where
  "split_on c [] = [[]]"
| "split_on c (x # xs) =
     (if x = c then [] # split_on c xs
      else (case split_on c xs of [] \<Rightarrow> [[x]] | w # ws \<Rightarrow> (x # w) # ws))"

definition declared_args :: "string \<Rightarrow> string list" where
  "declared_args sig = map (\<lambda>entry. hd (split_on CHR '':'' entry)) (split_on CHR '';'' sig)"

definition accepts_arg :: "string \<Rightarrow> bool" where
  "accepts_arg name = (name \<in> set (declared_args registered_args))"

section \<open>The per-plane blend: \<^verbatim>\<open>frameBlend<T>\<close>\<close>

text \<open>
  What the C++ leaves undefined is a value of the model: a null format pointer
  dereferenced, a shift by the width of the type or more, an index past the end of
  the fixed array \<^verbatim>\<open>srcpp\<close>, an access outside a frame, a plane or the mask, a
  float-to-int conversion out of range, and a destination declared
  \<^verbatim>\<open>VS_RESTRICT\<close> that overlaps a source.
\<close>

datatype fault =
  NullFormat
| ShiftUndefined
| SrcppOverrun
| OutOfBounds
| ConversionUndefined
| RestrictViolated

text \<open>
  \<^verbatim>\<open>const T* srcpp[128]\<close>: 128 pointers, none initialised. A pointer into a plane is
  the address of the plane buffer in the store and an offset in samples.
\<close>

type_synonym ptr = "nat \<times> nat"

definition srcpp_capacity :: nat where
  "srcpp_capacity = 128"

definition srcpp_init :: "ptr option list" where
  "srcpp_init = replicate srcpp_capacity None"

definition srcpp_write :: "ptr option list \<Rightarrow> nat \<Rightarrow> ptr \<Rightarrow> fault + ptr option list" where
  "srcpp_write a i p = (if i < length a then Inr (a[i := Some p]) else Inl SrcppOverrun)"

definition srcpp_read :: "ptr option list \<Rightarrow> nat \<Rightarrow> fault + ptr" where
  "srcpp_read a i =
     (if i < length a then (case a ! i of None \<Rightarrow> Inl OutOfBounds | Some p \<Rightarrow> Inr p)
      else Inl SrcppOverrun)"

text \<open>\<^verbatim>\<open>getReadPtr(f, plane)\<close> and \<^verbatim>\<open>getWritePtr(dst, plane)\<close>: the start of a plane.\<close>

definition getPlanePtr :: "VSFrameRef \<Rightarrow> nat \<Rightarrow> store \<Rightarrow> fault + ptr" where
  "getPlanePtr f plane st =
     (if plane < length (f_planes f) \<and> f_planes f ! plane < length st
      then Inr (f_planes f ! plane, 0) else Inl OutOfBounds)"

text \<open>
  The first \<^verbatim>\<open>std::transform\<close>: \<^verbatim>\<open>srcpp[i] = getReadPtr(srcs[i], plane)\<close> for
  \<open>i\<close> from 0 up to \<open>numSrcs\<close>. The first argument counts the iterations left.
\<close>

fun fill_srcpp ::
  "nat \<Rightarrow> nat \<Rightarrow> VSFrameRef list \<Rightarrow> nat \<Rightarrow> store \<Rightarrow> ptr option list \<Rightarrow> fault + ptr option list"
where
  "fill_srcpp 0 i srcs plane st a = Inr a"
| "fill_srcpp (Suc k) i srcs plane st a =
     (if i < length srcs then
        (case getPlanePtr (srcs ! i) plane st of
           Inl e \<Rightarrow> Inl e
         | Inr p \<Rightarrow>
             (case srcpp_write a i p of
                Inl e \<Rightarrow> Inl e
              | Inr a' \<Rightarrow> fill_srcpp k (Suc i) srcs plane st a'))
      else Inl OutOfBounds)"

text \<open>
  The second \<^verbatim>\<open>std::transform\<close>, at the end of each row:
  \<^verbatim>\<open>srcpp[i] = srcpp[i] + stride\<close>.
\<close>

fun advance_srcpp :: "nat \<Rightarrow> nat \<Rightarrow> nat \<Rightarrow> ptr option list \<Rightarrow> fault + ptr option list" where
  "advance_srcpp 0 i stride a = Inr a"
| "advance_srcpp (Suc k) i stride a =
     (case srcpp_read a i of
        Inl e \<Rightarrow> Inl e
      | Inr p \<Rightarrow>
          (case srcpp_write a i (fst p, snd p + stride) of
             Inl e \<Rightarrow> Inl e
           | Inr a' \<Rightarrow> advance_srcpp k (Suc i) stride a'))"

text \<open>\<^verbatim>\<open>srcpp[i][w]\<close>: the sample \<open>w\<close> places after the pointer.\<close>

definition read_sample :: "store \<Rightarrow> ptr \<Rightarrow> nat \<Rightarrow> fault + nat" where
  "read_sample st p w =
     (if fst p < length st \<and> snd p + w < length (p_data (st ! fst p))
      then Inr (p_data (st ! fst p) ! (snd p + w)) else Inl OutOfBounds)"

text \<open>
  The innermost loop: \<^verbatim>\<open>acc += val * d->weightPercents[i]\<close>. The sample is
  promoted to \<^verbatim>\<open>int\<close> and converted to \<^verbatim>\<open>float\<close>; product and sum are binary32.
\<close>

fun accumulate ::
  "nat \<Rightarrow> nat \<Rightarrow> fp list \<Rightarrow> ptr option list \<Rightarrow> store \<Rightarrow> nat \<Rightarrow> fp \<Rightarrow> fault + fp"
where
  "accumulate 0 i ws a st w acc = Inr acc"
| "accumulate (Suc k) i ws a st w acc =
     (case srcpp_read a i of
        Inl e \<Rightarrow> Inl e
      | Inr p \<Rightarrow>
          (case read_sample st p w of
             Inl e \<Rightarrow> Inl e
           | Inr val \<Rightarrow>
               accumulate k (Suc i) ws a st w
                 (fp_add binary32 acc (fp_mul binary32 (float_of_int (int val)) (ws ! i)))))"

definition std_clamp :: "int \<Rightarrow> int \<Rightarrow> int \<Rightarrow> int" where
  "std_clamp v lo hi = (if v < lo then lo else if hi < v then hi else v)"

text \<open>\<^verbatim>\<open>static_cast<T>\<close> of an \<^verbatim>\<open>int\<close> to an unsigned type of \<open>szT\<close> bytes.\<close>

definition static_cast :: "nat \<Rightarrow> int \<Rightarrow> nat" where
  "static_cast szT v = nat (v mod 2 ^ (8 * szT))"

text \<open>One sample: accumulate, convert to \<^verbatim>\<open>int\<close>, clamp, cast.\<close>

definition blend_sample ::
  "nat \<Rightarrow> fp list \<Rightarrow> ptr option list \<Rightarrow> store \<Rightarrow> int \<Rightarrow> nat \<Rightarrow> fault + nat"
where
  "blend_sample szT ws a st maxVal w =
     (case accumulate (length ws) 0 ws a st w (Fin 0) of
        Inl e \<Rightarrow> Inl e
      | Inr acc \<Rightarrow>
          (case float_to_int acc of
             None \<Rightarrow> Inl ConversionUndefined
           | Some v \<Rightarrow> Inr (static_cast szT (std_clamp v 0 maxVal))))"

text \<open>
  The loop over the columns of one row, storing \<^verbatim>\<open>dstp[w]\<close>; \<open>dd\<close> is the
  destination plane's data and \<open>doff\<close> the offset of \<^verbatim>\<open>dstp\<close> in it.
\<close>

fun blend_row ::
  "nat \<Rightarrow> nat \<Rightarrow> nat \<Rightarrow> fp list \<Rightarrow> ptr option list \<Rightarrow> store \<Rightarrow> int \<Rightarrow> nat \<Rightarrow> nat list
   \<Rightarrow> fault + nat list"
where
  "blend_row 0 w szT ws a st maxVal doff dd = Inr dd"
| "blend_row (Suc k) w szT ws a st maxVal doff dd =
     (case blend_sample szT ws a st maxVal w of
        Inl e \<Rightarrow> Inl e
      | Inr v \<Rightarrow>
          (if doff + w < length dd
           then blend_row k (Suc w) szT ws a st maxVal doff (dd[doff + w := v])
           else Inl OutOfBounds))"

text \<open>The loop over the rows: one row, then every pointer moves on by the stride.\<close>

fun blend_rows ::
  "nat \<Rightarrow> nat \<Rightarrow> nat \<Rightarrow> nat \<Rightarrow> fp list \<Rightarrow> ptr option list \<Rightarrow> store \<Rightarrow> int \<Rightarrow> nat \<Rightarrow> nat list
   \<Rightarrow> fault + nat list"
where
  "blend_rows 0 width stride szT ws a st maxVal doff dd = Inr dd"
| "blend_rows (Suc k) width stride szT ws a st maxVal doff dd =
     (case blend_row width 0 szT ws a st maxVal doff dd of
        Inl e \<Rightarrow> Inl e
      | Inr dd' \<Rightarrow>
          (case advance_srcpp (length ws) 0 stride a of
             Inl e \<Rightarrow> Inl e
           | Inr a' \<Rightarrow> blend_rows k width stride szT ws a' st maxVal (doff + stride) dd'))"

text \<open>
  \<^verbatim>\<open>unsigned maxVal = (1U << d->vi.format->bitsPerSample) - 1\<close>, read from the video
  info stored at construction.
\<close>

definition maxVal_of :: "FrameBlendData \<Rightarrow> fault + int" where
  "maxVal_of d =
     (case vi_format (d_vi d) of
        None \<Rightarrow> Inl NullFormat
      | Some fmt \<Rightarrow>
          (if bitsPerSample fmt < 0 \<or> 32 \<le> bitsPerSample fmt then Inl ShiftUndefined
           else Inr (2 ^ nat (bitsPerSample fmt) - 1)))"

text \<open>
  \<^verbatim>\<open>frameBlend<T>\<close> with \<open>szT = sizeof(T)\<close>. The sources are read from the store as
  it is at entry: the destination is \<^verbatim>\<open>VS_RESTRICT\<close>, and a destination plane that
  is also a source is a fault.
\<close>

definition frameBlend ::
  "nat \<Rightarrow> FrameBlendData \<Rightarrow> VSFrameRef list \<Rightarrow> VSFrameRef \<Rightarrow> nat \<Rightarrow> store \<Rightarrow> fault + store"
where
  "frameBlend szT d srcs dst plane st =
     (case getPlanePtr dst plane st of
        Inl e \<Rightarrow> Inl e
      | Inr dstp \<Rightarrow>
          (let dp = st ! fst dstp;
               stride = p_stride dp div szT;
               width = p_width dp;
               height = p_height dp;
               numSrcs = length (weightPercents d)
           in case fill_srcpp numSrcs 0 srcs plane st srcpp_init of
                Inl e \<Rightarrow> Inl e
              | Inr a \<Rightarrow>
                  (if Some (fst dstp) \<in> set (map (map_option fst) a) then Inl RestrictViolated
                   else
                     (case maxVal_of d of
                        Inl e \<Rightarrow> Inl e
                      | Inr maxVal \<Rightarrow>
                          (case blend_rows height width stride szT (weightPercents d) a st
                                  maxVal (snd dstp) (p_data dp) of
                             Inl e \<Rightarrow> Inl e
                           | Inr dd \<Rightarrow> Inr (st[fst dstp := dp\<lparr>p_data := dd\<rparr>]))))))"

section \<open>Frame requests: \<^verbatim>\<open>frameBlendGetFrame\<close>\<close>

datatype activation = arInitial | arFrameReady | arAllFramesReady | arError

text \<open>
  The calls that the function makes to the host are recorded as events, in order; a
  call is taken to return. \<open>Blend szT plane\<close> records a call of \<^verbatim>\<open>frameBlend<T>\<close>.
\<close>

datatype event =
  RequestFrame int
| GetFrame int
| NewVideoFrame
| Blend nat nat
| LogFatal string
| FreeFrame VSFrameRef

text \<open>
  The fetch loop: \<^verbatim>\<open>frames[i] = getFrameFilter(std::max(0, fn), ...)\<close>, then
  \<^verbatim>\<open>if (fn < INT_MAX - 1) fn++\<close>. The result is the list of the indices fetched.
\<close>

fun fetch_indices :: "nat \<Rightarrow> int \<Rightarrow> int list" where
  "fetch_indices 0 fn = []"
| "fetch_indices (Suc k) fn =
     max 0 fn # fetch_indices k (if fn < INT_MAX - 1 then fn + 1 else fn)"

definition half_of :: "FrameBlendData \<Rightarrow> int" where
  "half_of d = int (length (weightPercents d) div 2)"

definition window :: "FrameBlendData \<Rightarrow> int \<Rightarrow> int list" where
  "window d n = fetch_indices (length (weightPercents d)) (n - half_of d)"

text \<open>The request loop of the first activation, from \<open>max 0 (n - half)\<close> to \<open>lastframe\<close>.\<close>

definition requested :: "FrameBlendData \<Rightarrow> int \<Rightarrow> int list" where
  "requested d n =
     (let half = half_of d;
          clamp = (n > INT_MAX - 1 - half);
          lastframe = (if clamp then INT_MAX - 1 else n + half)
      in [max 0 (n - half) .. lastframe])"

text \<open>
  The host's \<^verbatim>\<open>newVideoFrame2(fi, width, height, fr, pl, center, core)\<close>, modelled from
  the host's documentation: plane \<open>i\<close> of the new frame is the buffer of plane
  \<open>pl[i]\<close> of \<open>fr[i]\<close> where that is not null, shared and not copied, and a newly
  allocated buffer otherwise. The format and the dimensions passed are those of
  \<open>center\<close>, so a new plane has the geometry of the same plane of \<open>center\<close>; its
  samples are not initialised (here 0). \<open>pl\<close> is \<open>{0, 1, 2}\<close>.
\<close>

definition blank_plane :: "plane \<Rightarrow> plane" where
  "blank_plane p = p\<lparr>p_data := replicate (length (p_data p)) 0\<rparr>"

fun new_planes ::
  "nat \<Rightarrow> nat \<Rightarrow> VSFrameRef option list \<Rightarrow> VSFrameRef \<Rightarrow> store \<Rightarrow> fault + nat list \<times> store"
where
  "new_planes 0 i fr center st = Inr ([], st)"
| "new_planes (Suc k) i fr center st =
     (if i < length fr \<and> i < length (f_planes center) \<and> f_planes center ! i < length st
      then
        (case fr ! i of
           Some f \<Rightarrow>
             (case new_planes k (Suc i) fr center st of
                Inl e \<Rightarrow> Inl e
              | Inr (as, st') \<Rightarrow> Inr (f_planes f ! i # as, st'))
         | None \<Rightarrow>
             (case new_planes k (Suc i) fr center (st @ [blank_plane (st ! (f_planes center ! i))]) of
                Inl e \<Rightarrow> Inl e
              | Inr (as, st') \<Rightarrow> Inr (length st # as, st')))
      else Inl OutOfBounds)"

definition newVideoFrame2 ::
  "VSFormat \<Rightarrow> VSFrameRef option list \<Rightarrow> VSFrameRef \<Rightarrow> store \<Rightarrow> fault + VSFrameRef \<times> store"
where
  "newVideoFrame2 fi fr center st =
     (case new_planes (nat (numPlanes fi)) 0 fr center st of
        Inl e \<Rightarrow> Inl e
      | Inr (as, st') \<Rightarrow> Inr (\<lparr>f_format = fi, f_planes = as\<rparr>, st'))"

text \<open>The text of the fatal log message.\<close>

definition fatal_message :: string where
  "fatal_message = ''msg tekno and tell him to fix :alien:''"

text \<open>
  The loop over the planes of the delivered format. The result is the store, the
  events so far and whether the loop ran to its end (\<open>False\<close>: the function logged
  the fatal message and returned null).
\<close>

fun blend_planes ::
  "nat \<Rightarrow> nat \<Rightarrow> FrameBlendData \<Rightarrow> VSFormat \<Rightarrow> VSFrameRef list \<Rightarrow> VSFrameRef \<Rightarrow> store
   \<Rightarrow> event list \<Rightarrow> fault + bool \<times> store \<times> event list"
where
  "blend_planes 0 plane d fi frames dst st evs = Inr (True, st, evs)"
| "blend_planes (Suc k) plane d fi frames dst st evs =
     (if plane < length (process d) then
        (if process d ! plane then
           (if bytesPerSample fi = 1 \<or> bytesPerSample fi = 2 then
              (case frameBlend (nat (bytesPerSample fi)) d frames dst plane st of
                 Inl e \<Rightarrow> Inl e
               | Inr st' \<Rightarrow>
                   blend_planes k (Suc plane) d fi frames dst st'
                     (evs @ [Blend (nat (bytesPerSample fi)) plane]))
            else Inr (False, st, evs @ [LogFatal fatal_message]))
         else blend_planes k (Suc plane) d fi frames dst st evs)
      else Inl OutOfBounds)"

record getframe_result =
  gf_frame :: "VSFrameRef option"
  gf_store :: store
  gf_events :: "event list"

definition frameBlendGetFrame ::
  "int \<Rightarrow> activation \<Rightarrow> FrameBlendData \<Rightarrow> store \<Rightarrow> fault + getframe_result"
where
  "frameBlendGetFrame n activationReason d st =
     (if activationReason = arInitial then
        Inr \<lparr>gf_frame = None, gf_store = st, gf_events = map RequestFrame (requested d n)\<rparr>
      else if activationReason = arAllFramesReady then
        (let idx = window d n;
             frames = map (node_frames (d_node d)) idx;
             evs = map GetFrame idx
         in if frames = [] then Inl OutOfBounds
            else
              let center = frames ! (length frames div 2);
                  fi = f_format center;
                  fr = map (\<lambda>p. if process d ! p then None else Some center) [0, 1, 2]
              in case newVideoFrame2 fi fr center st of
                   Inl e \<Rightarrow> Inl e
                 | Inr (dst, st1) \<Rightarrow>
                     (case blend_planes (nat (numPlanes fi)) 0 d fi frames dst st1
                             (evs @ [NewVideoFrame]) of
                        Inl e \<Rightarrow> Inl e
                      | Inr (ok, st2, evs2) \<Rightarrow>
                          (if ok
                           then Inr \<lparr>gf_frame = Some dst, gf_store = st2,
                                     gf_events = evs2 @ map FreeFrame frames\<rparr>
                           else Inr \<lparr>gf_frame = None, gf_store = st2, gf_events = evs2\<rparr>)))
      else Inr \<lparr>gf_frame = None, gf_store = st, gf_events = []\<rparr>)"

section \<open>Notions used in the statements\<close>

text \<open>
  The store addresses of the sources' planes, what it takes for them to be planes of
  the store, and the state of \<^verbatim>\<open>srcpp\<close> at a row: entry \<open>i\<close> points \<open>off\<close> samples
  into the plane of source \<open>i\<close>.
\<close>

definition srcpp_at :: "ptr option list \<Rightarrow> nat \<Rightarrow> nat list \<Rightarrow> nat \<Rightarrow> bool" where
  "srcpp_at a n addrs off \<longleftrightarrow>
     length a = srcpp_capacity \<and> n \<le> srcpp_capacity \<and> (\<forall>i<n. a ! i = Some (addrs ! i, off))"

definition src_addrs :: "VSFrameRef list \<Rightarrow> nat \<Rightarrow> nat list" where
  "src_addrs srcs plane = map (\<lambda>f. f_planes f ! plane) srcs"

definition srcs_valid :: "VSFrameRef list \<Rightarrow> nat \<Rightarrow> store \<Rightarrow> bool" where
  "srcs_valid srcs plane st \<longleftrightarrow>
     (\<forall>f\<in>set srcs. plane < length (f_planes f) \<and> f_planes f ! plane < length st)"

definition samples_at :: "store \<Rightarrow> nat list \<Rightarrow> nat \<Rightarrow> nat list" where
  "samples_at st addrs pos = map (\<lambda>ad. p_data (st ! ad) ! pos) addrs"

definition weighted_sum :: "fp list \<Rightarrow> nat list \<Rightarrow> fp" where
  "weighted_sum ws vals =
     foldl (\<lambda>acc i. fp_add binary32 acc (fp_mul binary32 (float_of_int (int (vals ! i))) (ws ! i)))
       (Fin 0) [0..<length ws]"

definition pix :: "nat \<Rightarrow> int \<Rightarrow> fp list \<Rightarrow> store \<Rightarrow> nat list \<Rightarrow> nat \<Rightarrow> nat" where
  "pix szT maxVal ws st addrs pos =
     static_cast szT
       (std_clamp (the (float_to_int (weighted_sum ws (samples_at st addrs pos)))) 0 maxVal)"

definition readable :: "store \<Rightarrow> nat list \<Rightarrow> nat \<Rightarrow> bool" where
  "readable st addrs pos \<longleftrightarrow> (\<forall>ad\<in>set addrs. ad < length st \<and> pos < length (p_data (st ! ad)))"

definition pitch :: "nat \<Rightarrow> plane \<Rightarrow> nat" where
  "pitch szT p = p_stride p div szT"

definition dst_addr :: "VSFrameRef \<Rightarrow> nat \<Rightarrow> nat" where
  "dst_addr dst plane = f_planes dst ! plane"

definition blend_pre ::
  "nat \<Rightarrow> fp list \<Rightarrow> VSFrameRef list \<Rightarrow> VSFrameRef \<Rightarrow> nat \<Rightarrow> store \<Rightarrow> bool"
where
  "blend_pre szT ws srcs dst plane st \<longleftrightarrow>
     plane < length (f_planes dst) \<and> dst_addr dst plane < length st \<and>
     length srcs = length ws \<and> length ws \<le> srcpp_capacity \<and>
     srcs_valid srcs plane st \<and>
     dst_addr dst plane \<notin> set (src_addrs srcs plane) \<and>
     (let dp = st ! dst_addr dst plane
      in p_width dp \<le> pitch szT dp \<and>
         (\<forall>ad\<in>set (dst_addr dst plane # src_addrs srcs plane).
            p_height dp * pitch szT dp \<le> length (p_data (st ! ad))))"


text \<open>
  The frames fetched for output index \<open>n\<close>, the one in the middle, and what it takes
  for a frame to be a frame of the store: at most three planes, each a plane buffer
  of the store.
\<close>

definition source_frames :: "FrameBlendData \<Rightarrow> int \<Rightarrow> VSFrameRef list" where
  "source_frames d n = map (node_frames (d_node d)) (window d n)"

definition center_frame :: "FrameBlendData \<Rightarrow> int \<Rightarrow> VSFrameRef" where
  "center_frame d n = source_frames d n ! (length (source_frames d n) div 2)"

definition frame_in_store :: "VSFrameRef \<Rightarrow> store \<Rightarrow> bool" where
  "frame_in_store f st \<longleftrightarrow>
     0 \<le> numPlanes (f_format f) \<and> numPlanes (f_format f) \<le> 3 \<and>
     nat (numPlanes (f_format f)) \<le> length (f_planes f) \<and>
     (\<forall>a\<in>set (take (nat (numPlanes (f_format f))) (f_planes f)). a < length st)"




section \<open>Example data\<close>

text \<open>
  Formats: 8-bit gray, 8-bit with three planes, 16-bit gray, and 32-bit float gray
  (four bytes per sample).
\<close>

definition gray8 :: VSFormat where
  "gray8 = \<lparr>numPlanes = 1, bitsPerSample = 8, bytesPerSample = 1\<rparr>"

definition yuv8 :: VSFormat where
  "yuv8 = \<lparr>numPlanes = 3, bitsPerSample = 8, bytesPerSample = 1\<rparr>"

definition gray16 :: VSFormat where
  "gray16 = \<lparr>numPlanes = 1, bitsPerSample = 16, bytesPerSample = 2\<rparr>"


text \<open>
  A plane of two rows of two samples of \<open>szT\<close> bytes, three samples to the row: every
  visible sample is \<open>v\<close>, the padding is 7.
\<close>

definition flat :: "nat \<Rightarrow> nat \<Rightarrow> plane" where
  "flat szT v = \<lparr>p_stride = 3 * szT, p_width = 2, p_height = 2, p_data = [v, v, 7, v, v, 7]\<rparr>"

text \<open>
  A clip of three frames of format \<open>fmt\<close> with \<open>np\<close> planes each: plane \<open>p\<close> of frame
  \<open>i\<close> is at address \<open>np * i + p\<close>. The host delivers the last frame for an index past
  the end.
\<close>

definition clip_frame :: "VSFormat \<Rightarrow> nat \<Rightarrow> int \<Rightarrow> VSFrameRef" where
  "clip_frame fmt np n =
     \<lparr>f_format = fmt, f_planes = map (\<lambda>p. np * nat (min n 2) + p) [0..<np]\<rparr>"

definition clip_of :: "VSFormat option \<Rightarrow> VSFormat \<Rightarrow> nat \<Rightarrow> VSNodeRef" where
  "clip_of static fmt np =
     \<lparr>node_vi = \<lparr>vi_format = static, vi_width = 2, vi_height = 2, vi_numFrames = 3\<rparr>,
      node_frames = clip_frame fmt np\<rparr>"

text \<open>The gray clip: frames of constant value 10, 20 and 30.\<close>

definition gray_store :: store where
  "gray_store = [flat 1 10, flat 1 20, flat 1 30]"

definition gray_clip :: VSNodeRef where
  "gray_clip = clip_of (Some gray8) gray8 1"

definition gray_args :: "fp list \<Rightarrow> VSMap" where
  "gray_args ws = \<lparr>arg_clip = gray_clip, arg_weights = Some ws, arg_planes = None\<rparr>"

definition filter_of :: "VSNodeRef \<Rightarrow> fp list \<Rightarrow> bool list \<Rightarrow> FrameBlendData" where
  "filter_of node ws pr = \<lparr>d_node = node, d_vi = node_vi node, weightPercents = ws, process = pr\<rparr>"

text \<open>The filter on the gray clip with the weights 1, 2, 1, as normalised.\<close>

definition gray_filter :: FrameBlendData where
  "gray_filter = filter_of gray_clip [Fin (1 / 4), Fin (1 / 2), Fin (1 / 4)] [True, True, True]"

text \<open>Filters on the gray clip with five weights and with one.\<close>

definition five_filter :: FrameBlendData where
  "five_filter =
     filter_of gray_clip (scale_weights [Fin 1, Fin 2, Fin 3, Fin 2, Fin 1]) [True, True, True]"

definition one_filter :: FrameBlendData where
  "one_filter = filter_of gray_clip (scale_weights [Fin 1]) [True, True, True]"

text \<open>The gray store with a fourth plane for a destination, and the frame that owns it.\<close>

definition gray_store_dst :: store where
  "gray_store_dst = gray_store @ [blank_plane (flat 1 20)]"

definition gray_dst :: VSFrameRef where
  "gray_dst = \<lparr>f_format = gray8, f_planes = [3]\<rparr>"

definition gray_srcs :: "VSFrameRef list" where
  "gray_srcs = map (clip_frame gray8 1) [0, 1, 2]"

text \<open>
  Weights that sum to 1 are their own normalisation; these three are powers of two,
  which binary32 and binary64 hold exactly.
\<close>

definition huge_weights :: "fp list" where
  "huge_weights = [Fin (- (2 ^ 100)), Fin (2 ^ 100), Fin 1]"

definition huge_filter :: FrameBlendData where
  "huge_filter = filter_of gray_clip huge_weights [True, True, True]"

text \<open>A filter with 129 weights, and 129 source frames for it.\<close>

definition wide_filter :: FrameBlendData where
  "wide_filter = filter_of gray_clip (replicate 129 (Fin (1 / 129))) [True, True, True]"

definition wide_srcs :: "VSFrameRef list" where
  "wide_srcs = replicate 129 (clip_frame gray8 1 1)"

text \<open>The clip of three planes: frame \<open>i\<close> has the values \<open>10 i + 10\<close>, \<open>100 + i\<close>, \<open>200 + i\<close>.\<close>

definition yuv_store :: store where
  "yuv_store =
     [flat 1 10, flat 1 100, flat 1 200,
      flat 1 20, flat 1 101, flat 1 201,
      flat 1 30, flat 1 102, flat 1 202]"

definition yuv_clip :: VSNodeRef where
  "yuv_clip = clip_of (Some yuv8) yuv8 3"

definition yuv_filter :: FrameBlendData where
  "yuv_filter = filter_of yuv_clip [Fin (1 / 4), Fin (1 / 2), Fin (1 / 4)] [True, False, False]"





text \<open>
  The gray clip again with no static format (a clip of variable format), and with a
  static format of 16 bits although the frames delivered are of 8 bits.
\<close>

definition null_filter :: FrameBlendData where
  "null_filter =
     filter_of (clip_of None gray8 1) [Fin (1 / 4), Fin (1 / 2), Fin (1 / 4)] [True, True, True]"

definition steep_weights :: "fp list" where
  "steep_weights = [Fin (- 20), Fin 1, Fin 20]"

definition mismatch_filter :: FrameBlendData where
  "mismatch_filter = filter_of (clip_of (Some gray16) gray8 1) steep_weights [True, True, True]"

definition match_filter :: FrameBlendData where
  "match_filter = filter_of gray_clip steep_weights [True, True, True]"

section \<open>Rounding\<close>

text \<open>
  The helpers of the rounding compute what their names say: \<open>pow2\<close> is the power of
  two, \<open>ilog2\<close> the binary exponent of a positive rational, and a value rounded to a
  format is a multiple of the unit in the last place within half a unit of the exact
  value.
\<close>

lemma pow2n_eq: "pow2n e = 2 ^ nat e"
proof (induction e rule: pow2n.induct)
  case (1 e)
  show ?case
  proof (cases "e \<le> 0")
    case True
    then show ?thesis by (simp add: pow2n.simps [of e])
  next
    case False
    then have ih: "pow2n (e div 2) = 2 ^ nat (e div 2)" using 1 by simp
    show ?thesis
    proof (cases "even e")
      case True
      then have "nat e = nat (e div 2) + nat (e div 2)" using False by (auto elim!: evenE)
      then have "(2::rat) ^ nat e = 2 ^ nat (e div 2) * 2 ^ nat (e div 2)"
        by (metis power_add)
      then show ?thesis using False True ih by (simp add: pow2n.simps [of e] Let_def)
    next
      case odd: False
      then have "nat e = Suc (nat (e div 2) + nat (e div 2))" using False by (auto elim!: oddE)
      then have "(2::rat) ^ nat e = 2 * (2 ^ nat (e div 2) * 2 ^ nat (e div 2))"
        by (metis power_Suc power_add)
      then show ?thesis using False odd ih by (simp add: pow2n.simps [of e] Let_def)
    qed
  qed
qed

lemma pow2_powi: "pow2 e = 2 powi e"
  by (simp add: pow2_def pow2n_eq power_int_def field_simps)

lemma pow2_pos: "0 < pow2 e"
  by (simp add: pow2_powi)

lemma pow2_add: "pow2 (x + y) = pow2 x * pow2 y"
  by (simp add: pow2_powi power_int_add)

lemma bit_length_bounds:
  "0 < n \<Longrightarrow> 1 \<le> bit_length n \<and> 2 ^ nat (bit_length n - 1) \<le> n \<and> n < 2 ^ nat (bit_length n)"
proof (induction n rule: bit_length.induct)
  case (1 n)
  show ?case
  proof (cases "n = 1")
    case True
    then show ?thesis by (simp add: bit_length.simps [of 1] bit_length.simps [of 0])
  next
    case False
    with 1 have h: "0 < n div 2" by simp
    with 1 have ih: "1 \<le> bit_length (n div 2)" "2 ^ nat (bit_length (n div 2) - 1) \<le> n div 2"
      "n div 2 < 2 ^ nat (bit_length (n div 2))" by simp_all
    have bl: "bit_length n = 1 + bit_length (n div 2)"
      using 1(2) by (simp add: bit_length.simps [of n])
    have e1: "nat (bit_length n - 1) = Suc (nat (bit_length (n div 2) - 1))"
      using bl ih(1) by simp
    have e2: "nat (bit_length n) = Suc (nat (bit_length (n div 2)))"
      using bl ih(1) by simp
    have "2 * 2 ^ nat (bit_length (n div 2) - 1) \<le> n" using ih(2) by linarith
    moreover have "n < 2 * 2 ^ nat (bit_length (n div 2))" using ih(3) by linarith
    ultimately show ?thesis using bl ih(1) e1 e2 by simp
  qed
qed

lemma ilog2_bounds:
  assumes "0 < a"
  shows "pow2 (ilog2 a) \<le> a \<and> a < pow2 (ilog2 a + 1)"
proof -
  obtain p q where pq: "quotient_of a = (p, q)" by (cases "quotient_of a")
  then have q: "0 < q" and a: "a = of_int p / of_int q"
    using quotient_of_denom_pos quotient_of_div by auto
  with assms have p: "0 < p" by (simp add: zero_less_divide_iff)
  let ?bp = "bit_length p" and ?bq = "bit_length q"
  let ?d = "?bp - ?bq"
  note bp = bit_length_bounds [OF p] and bq = bit_length_bounds [OF q]
  have P: "pow2 (?bp - 1) \<le> of_int p" "of_int p < pow2 ?bp"
  proof -
    have "(of_int (2 ^ nat (?bp - 1)) :: rat) \<le> of_int p" using bp by (simp only: of_int_le_iff)
    then show "pow2 (?bp - 1) \<le> of_int p" using bp by (simp add: pow2_def pow2n_eq)
    have "(of_int p :: rat) < of_int (2 ^ nat ?bp)" using bp by (simp only: of_int_less_iff)
    then show "of_int p < pow2 ?bp" using bp by (simp add: pow2_def pow2n_eq)
  qed
  have Q: "pow2 (?bq - 1) \<le> of_int q" "of_int q < pow2 ?bq"
  proof -
    have "(of_int (2 ^ nat (?bq - 1)) :: rat) \<le> of_int q" using bq by (simp only: of_int_le_iff)
    then show "pow2 (?bq - 1) \<le> of_int q" using bq by (simp add: pow2_def pow2n_eq)
    have "(of_int q :: rat) < of_int (2 ^ nat ?bq)" using bq by (simp only: of_int_less_iff)
    then show "of_int q < pow2 ?bq" using bq by (simp add: pow2_def pow2n_eq)
  qed
  have qpos: "(0::rat) < of_int q" using q by simp
  have lo: "pow2 (?d - 1) < a"
  proof -
    have "pow2 (?d - 1) * of_int q < pow2 (?d - 1) * pow2 ?bq"
      using Q(2) pow2_pos by (simp add: mult_strict_left_mono)
    also have "\<dots> = pow2 (?bp - 1)" by (simp add: pow2_add [symmetric])
    also have "\<dots> \<le> of_int p" by (rule P(1))
    finally show ?thesis using qpos by (simp add: a pos_less_divide_eq)
  qed
  have hi: "a < pow2 (?d + 1)"
  proof -
    have "of_int p < pow2 ?bp" by (rule P(2))
    also have "\<dots> = pow2 (?d + 1) * pow2 (?bq - 1)" by (simp add: pow2_add [symmetric])
    also have "\<dots> \<le> pow2 (?d + 1) * of_int q"
      using Q(1) pow2_pos [of "?d + 1"] by (simp add: mult_left_mono)
    finally show ?thesis using qpos by (simp add: a pos_divide_less_eq)
  qed
  show ?thesis
  proof (cases "pow2 ?d \<le> a")
    case True
    then show ?thesis using hi pq by (simp add: ilog2_def Let_def)
  next
    case False
    then have "ilog2 a = ?d - 1" using pq by (simp add: ilog2_def Let_def)
    then show ?thesis using False lo by simp
  qed
qed


lemma round_half_even_error: "\<bar>of_int (round_half_even q) - q\<bar> \<le> 1 / 2"
proof -
  define f where "f = (of_int \<lfloor>q\<rfloor> :: rat)"
  have f: "f \<le> q" "q < f + 1" unfolding f_def by linarith+
  have "round_half_even q = \<lfloor>q\<rfloor> \<and> q - f \<le> 1 / 2 \<or>
        round_half_even q = \<lfloor>q\<rfloor> + 1 \<and> 1 / 2 \<le> q - f"
    unfolding round_half_even_def Let_def f_def by auto
  then show ?thesis
  proof
    assume "round_half_even q = \<lfloor>q\<rfloor> \<and> q - f \<le> 1 / 2"
    then have "of_int (round_half_even q) - q = f - q" "q - f \<le> 1 / 2" by (simp_all add: f_def)
    then show ?thesis using f by (simp add: abs_if)
  next
    assume "round_half_even q = \<lfloor>q\<rfloor> + 1 \<and> 1 / 2 \<le> q - f"
    then have "of_int (round_half_even q) - q = f + 1 - q" "1 / 2 \<le> q - f" by (simp_all add: f_def)
    then show ?thesis using f by (simp add: abs_if)
  qed
qed


lemma fp_round_cases:
  assumes "x \<noteq> 0"
    and "u = pow2 (max (ilog2 \<bar>x\<bar>) (fmt_emin fmt) - fmt_prec fmt + 1)"
    and "m = of_int (round_half_even (\<bar>x\<bar> / u)) * u"
  shows "fp_round fmt x =
      (if pow2 (fmt_emax fmt + 1) \<le> m then fp_inf (x < 0)
       else if m = 0 then fp_zero (x < 0)
       else Fin (if 0 < x then m else - m))"
  using assms(1) unfolding fp_round_def Let_def assms(2,3) by simp

lemma fp_round_nearest:
  assumes "x \<noteq> 0" and "fp_round fmt x = Fin y"
  shows "\<exists>n. y = of_int n * pow2 (max (ilog2 \<bar>x\<bar>) (fmt_emin fmt) - fmt_prec fmt + 1) \<and>
    \<bar>y - x\<bar> \<le> pow2 (max (ilog2 \<bar>x\<bar>) (fmt_emin fmt) - fmt_prec fmt + 1) / 2"
proof -
  define u where "u = pow2 (max (ilog2 \<bar>x\<bar>) (fmt_emin fmt) - fmt_prec fmt + 1)"
  define n where "n = round_half_even (\<bar>x\<bar> / u)"
  define m where "m = (of_int n :: rat) * u"
  have u: "0 < u" unfolding u_def by (rule pow2_pos)
  have r: "fp_round fmt x =
      (if pow2 (fmt_emax fmt + 1) \<le> m then fp_inf (x < 0)
       else if m = 0 then fp_zero (x < 0)
       else Fin (if 0 < x then m else - m))"
    by (rule fp_round_cases [OF assms(1) u_def]) (simp add: m_def n_def)
  have y: "y = (if 0 < x then m else - m)"
    using r assms(2) by (auto simp: fp_inf_def fp_zero_def split: if_splits)
  have "\<bar>of_int n - \<bar>x\<bar> / u\<bar> \<le> 1 / 2" unfolding n_def by (rule round_half_even_error)
  then have "\<bar>of_int n - \<bar>x\<bar> / u\<bar> * u \<le> 1 / 2 * u"
    using u by (intro mult_right_mono) simp_all
  moreover have "\<bar>of_int n - \<bar>x\<bar> / u\<bar> * u = \<bar>m - \<bar>x\<bar>\<bar>"
  proof -
    have "\<bar>of_int n - \<bar>x\<bar> / u\<bar> * u = \<bar>(of_int n - \<bar>x\<bar> / u) * u\<bar>"
      using u by (simp add: abs_mult)
    also have "(of_int n - \<bar>x\<bar> / u) * u = m - \<bar>x\<bar>"
      using u by (simp add: m_def left_diff_distrib)
    finally show ?thesis .
  qed
  ultimately have err: "\<bar>m - \<bar>x\<bar>\<bar> \<le> u / 2" by simp
  show ?thesis
  proof (cases "0 < x")
    case True
    then have "y = of_int n * u" "\<bar>y - x\<bar> \<le> u / 2" using y err by (simp_all add: m_def)
    then show ?thesis unfolding u_def [symmetric] by blast
  next
    case False
    then have neg: "x < 0" using assms(1) by simp
    then have "y - x = - (m - \<bar>x\<bar>)" using y by simp
    then have "\<bar>y - x\<bar> = \<bar>m - \<bar>x\<bar>\<bar>" by (simp only: abs_minus)
    moreover have "y = of_int (- n) * u" using y neg by (simp add: m_def)
    ultimately have "y = of_int (- n) * u \<and> \<bar>y - x\<bar> \<le> u / 2" using err by simp
    then show ?thesis unfolding u_def [symmetric] by blast
  qed
qed

text \<open>
  A rounded value lies on the grid of the format, and a non-zero value of the grid
  does not round to a zero.
\<close>

lemma pow2_mono: "x \<le> y \<Longrightarrow> pow2 x \<le> pow2 y"
  by (simp add: pow2_powi power_int_increasing)

lemma pow2_nonneg_int: "0 \<le> e \<Longrightarrow> pow2 e = of_int (2 ^ nat e)"
  by (simp add: pow2_def pow2n_eq)

lemma fp_round_on_grid:
  assumes "fp_round fmt x = Fin y"
  shows "on_grid fmt y"
proof (cases "x = 0")
  case True
  then have "y = 0" using assms by (simp add: fp_round_def)
  then show ?thesis unfolding on_grid_def by (intro exI [of _ 0]) simp
next
  case False
  define E where "E = max (ilog2 \<bar>x\<bar>) (fmt_emin fmt)"
  from fp_round_nearest [OF False assms] obtain n where
    n: "y = of_int n * pow2 (E - fmt_prec fmt + 1)" unfolding E_def by blast
  have E: "0 \<le> E - fmt_emin fmt" unfolding E_def by simp
  have "pow2 (E - fmt_prec fmt + 1) = pow2 ((E - fmt_emin fmt) + (fmt_emin fmt - fmt_prec fmt + 1))"
    by (simp add: algebra_simps)
  also have "\<dots> = of_int (2 ^ nat (E - fmt_emin fmt)) * pow2 (fmt_emin fmt - fmt_prec fmt + 1)"
    unfolding pow2_add using pow2_nonneg_int [OF E] by simp
  finally have "y = of_int (n * 2 ^ nat (E - fmt_emin fmt)) * pow2 (fmt_emin fmt - fmt_prec fmt + 1)"
    using n by simp
  then show ?thesis unfolding on_grid_def by blast
qed

lemma round_half_even_ge1: "1 \<le> q \<Longrightarrow> 1 \<le> round_half_even q"
proof -
  assume "1 \<le> q"
  then have "1 \<le> \<lfloor>q\<rfloor>" by simp
  then show ?thesis unfolding round_half_even_def Let_def by auto
qed

lemma fp_round_not_NegZero:
  assumes "on_grid fmt x" and "1 \<le> fmt_prec fmt"
  shows "fp_round fmt x \<noteq> NegZero"
proof (cases "x = 0")
  case True
  then show ?thesis by (simp add: fp_round_def)
next
  case False
  define g where "g = pow2 (fmt_emin fmt - fmt_prec fmt + 1)"
  define u where "u = pow2 (max (ilog2 \<bar>x\<bar>) (fmt_emin fmt) - fmt_prec fmt + 1)"
  define m where "m = (of_int (round_half_even (\<bar>x\<bar> / u)) :: rat) * u"
  have g: "0 < g" and u: "0 < u" unfolding g_def u_def by (rule pow2_pos)+
  from assms(1) obtain k :: int where k: "x = of_int k * g" unfolding on_grid_def g_def by blast
  with False have "k \<noteq> 0" by auto
  then have "1 \<le> \<bar>k\<bar>" by simp
  then have "(1::rat) \<le> of_int \<bar>k\<bar>" by (simp only: of_int_1_le_iff)
  then have "1 * g \<le> of_int \<bar>k\<bar> * g" using g by (intro mult_right_mono) simp_all
  then have xg: "g \<le> \<bar>x\<bar>" using g by (simp add: k abs_mult)
  have a: "0 < \<bar>x\<bar>" using False by simp
  have "u \<le> \<bar>x\<bar>"
  proof (cases "ilog2 \<bar>x\<bar> \<le> fmt_emin fmt")
    case True
    then have "u = g" unfolding u_def g_def by (simp add: max_def)
    then show ?thesis using xg by simp
  next
    case False
    then have "u = pow2 (ilog2 \<bar>x\<bar> - fmt_prec fmt + 1)" unfolding u_def by (simp add: max_def)
    also have "\<dots> \<le> pow2 (ilog2 \<bar>x\<bar>)" using assms(2) by (intro pow2_mono) simp
    also have "\<dots> \<le> \<bar>x\<bar>" using ilog2_bounds [OF a] by simp
    finally show ?thesis .
  qed
  then have "1 \<le> \<bar>x\<bar> / u" using u by (simp add: pos_le_divide_eq)
  then have "1 \<le> round_half_even (\<bar>x\<bar> / u)" by (rule round_half_even_ge1)
  then have "(0::rat) < of_int (round_half_even (\<bar>x\<bar> / u))" by simp
  then have "0 < m" unfolding m_def using u by (simp add: zero_less_mult_iff)
  then have "m \<noteq> 0" by simp
  then show ?thesis
    using fp_round_cases [OF False u_def m_def] by (simp add: fp_inf_def)
qed

section \<open>Plane selection\<close>

lemma planes_loop_length:
  "planes_loop xs pr = Inr pr' \<Longrightarrow> length pr' = length pr"
  by (induction xs arbitrary: pr) (auto simp: Let_def split: if_splits)

lemma int64ToIntS_range: "0 \<le> int64ToIntS x \<and> int64ToIntS x < 3 \<longleftrightarrow> 0 \<le> x \<and> x < 3"
  by (auto simp: int64ToIntS_def INT_MAX_def INT_MIN_def)

lemma int64ToIntS_id: "0 \<le> x \<Longrightarrow> x < 3 \<Longrightarrow> int64ToIntS x = x"
  by (auto simp: int64ToIntS_def INT_MAX_def INT_MIN_def)

lemma planes_loop_out_of_range:
  "\<exists>x\<in>set xs. x < 0 \<or> 3 \<le> x \<Longrightarrow> \<exists>e. planes_loop xs pr = Inl e"
proof (induction xs arbitrary: pr)
  case Nil
  then show ?case by simp
next
  case (Cons x xs)
  show ?case
  proof (cases "x < 0 \<or> 3 \<le> x")
    case True
    then have "int64ToIntS x < 0 \<or> 3 \<le> int64ToIntS x"
      using int64ToIntS_range [of x] by auto
    then show ?thesis by (auto simp: Let_def)
  next
    case False
    with Cons.prems have "\<exists>y\<in>set xs. y < 0 \<or> 3 \<le> y" by auto
    from Cons.IH [OF this] show ?thesis by (auto simp: Let_def)
  qed
qed

text \<open>Invariant of the loop from an all-false mask: exact characterisation.\<close>

lemma planes_loop_ok:
  "length pr = 3 \<Longrightarrow> \<forall>x\<in>set xs. 0 \<le> x \<and> x < 3 \<Longrightarrow> distinct xs \<Longrightarrow>
   \<forall>x\<in>set xs. \<not> pr ! nat x \<Longrightarrow>
   planes_loop xs pr = Inr (map (\<lambda>p. pr ! p \<or> int p \<in> set xs) [0, 1, 2])"
proof (induction xs arbitrary: pr)
  case Nil
  then show ?case
    by (cases pr; cases "tl pr"; cases "tl (tl pr)") auto
next
  case (Cons x xs)
  have x: "0 \<le> x" "x < 3" using Cons.prems by auto
  then have ix: "int64ToIntS x = x" by (simp add: int64ToIntS_id)
  have nx: "\<not> pr ! nat x" using Cons.prems by auto
  let ?pr = "pr[nat x := True]"
  have len: "length ?pr = 3" using Cons.prems by simp
  have fresh: "\<forall>y\<in>set xs. \<not> ?pr ! nat y"
  proof
    fix y assume y: "y \<in> set xs"
    then have "y \<noteq> x" using Cons.prems by auto
    moreover have "0 \<le> y" using y Cons.prems by auto
    ultimately have "nat y \<noteq> nat x" using x by auto
    then show "\<not> ?pr ! nat y" using y Cons.prems by (auto simp: nth_list_update)
  qed
  have "planes_loop xs ?pr = Inr (map (\<lambda>p. ?pr ! p \<or> int p \<in> set xs) [0, 1, 2])"
    using Cons.IH [OF len _ _ fresh] Cons.prems by auto
  moreover have "map (\<lambda>p. ?pr ! p \<or> int p \<in> set xs) [0, 1, 2]
      = map (\<lambda>p. pr ! p \<or> int p \<in> set (x # xs)) [0, 1, 2]"
    using x Cons.prems(1) by (auto simp: nth_list_update)
  ultimately show ?case using x ix nx by (simp add: Let_def)
qed

lemma planes_loop_marked:
  "\<exists>x\<in>set xs. 0 \<le> x \<and> x < 3 \<and> pr ! nat x \<Longrightarrow> \<exists>e. planes_loop xs pr = Inl e"
proof (induction xs arbitrary: pr)
  case Nil
  then show ?case by simp
next
  case (Cons x xs)
  show ?case
  proof (cases "(x < 0 \<or> 3 \<le> x) \<or> pr ! nat x")
    case True
    then show ?thesis
      using int64ToIntS_range [of x] int64ToIntS_id [of x] by (auto simp: Let_def)
  next
    case False
    then have ix: "int64ToIntS x = x" by (simp add: int64ToIntS_id)
    from Cons.prems obtain y where y: "y \<in> set (x # xs)" "0 \<le> y" "y < 3" "pr ! nat y"
      by blast
    with False have "y \<noteq> x" by auto
    then have "y \<in> set xs" "nat y \<noteq> nat x" using y False by auto
    then have "\<exists>z\<in>set xs. 0 \<le> z \<and> z < 3 \<and> (pr[nat x := True]) ! nat z"
      using y by (auto simp: nth_list_update)
    from Cons.IH [OF this] show ?thesis using False ix by (simp add: Let_def)
  qed
qed

lemma planes_loop_twice:
  "\<not> distinct xs \<Longrightarrow> length pr = 3 \<Longrightarrow> \<exists>e. planes_loop xs pr = Inl e"
proof (induction xs arbitrary: pr)
  case Nil
  then show ?case by simp
next
  case (Cons x xs)
  show ?case
  proof (cases "(x < 0 \<or> 3 \<le> x) \<or> pr ! nat x")
    case True
    then show ?thesis
      using int64ToIntS_range [of x] int64ToIntS_id [of x] by (auto simp: Let_def)
  next
    case False
    then have ix: "int64ToIntS x = x" by (simp add: int64ToIntS_id)
    have step: "planes_loop (x # xs) pr = planes_loop xs (pr[nat x := True])"
      using False ix by (simp add: Let_def)
    show ?thesis
    proof (cases "x \<in> set xs")
      case True
      have "nat x < length pr" using False Cons.prems by auto
      then have "\<exists>z\<in>set xs. 0 \<le> z \<and> z < 3 \<and> (pr[nat x := True]) ! nat z"
        using True False by (auto intro!: bexI [of _ x])
      from planes_loop_marked [OF this] show ?thesis using step by simp
    next
      case nin: False
      then have "\<not> distinct xs" using Cons.prems by simp
      from Cons.IH [OF this, of "pr[nat x := True]"] Cons.prems
      show ?thesis using step by simp
    qed
  qed
qed

lemma getPlanesArg_all:
  "getPlanesArg None = Inr [True, True, True]" "getPlanesArg (Some []) = Inr [True, True, True]"
  by (simp_all add: getPlanesArg_def propNumElements_def numeral_3_eq_3)

text \<open>
  Claim C5. For every sequence of plane indices given to the plane selector: the empty
  sequence selects all three planes; a sequence with an index outside \<open>[0, 3)\<close> is
  refused with an error; a sequence in which an index occurs twice is refused with an
  error; and every other sequence yields the mask that is true exactly at the planes
  the sequence names.
\<close>

theorem getPlanesArg_mask:
  "getPlanesArg (Some []) = Inr [True, True, True] \<and>
   ((\<exists>x\<in>set xs. x < 0 \<or> 3 \<le> x) \<longrightarrow> (\<exists>e. getPlanesArg (Some xs) = Inl e)) \<and>
   (\<not> distinct xs \<longrightarrow> (\<exists>e. getPlanesArg (Some xs) = Inl e)) \<and>
   (xs \<noteq> [] \<and> (\<forall>x\<in>set xs. 0 \<le> x \<and> x < 3) \<and> distinct xs \<longrightarrow>
      getPlanesArg (Some xs) = Inr (map (\<lambda>p. int p \<in> set xs) [0, 1, 2]))"
proof (intro conjI impI)
  show "getPlanesArg (Some []) = Inr [True, True, True]"
    by (simp add: getPlanesArg_all)
  show "\<exists>e. getPlanesArg (Some xs) = Inl e" if "\<exists>x\<in>set xs. x < 0 \<or> 3 \<le> x"
    using planes_loop_out_of_range [OF that] by (simp add: getPlanesArg_def)
  show "\<exists>e. getPlanesArg (Some xs) = Inl e" if "\<not> distinct xs"
    using planes_loop_twice [OF that] by (simp add: getPlanesArg_def)
  show "getPlanesArg (Some xs) = Inr (map (\<lambda>p. int p \<in> set xs) [0, 1, 2])"
    if h: "xs \<noteq> [] \<and> (\<forall>x\<in>set xs. 0 \<le> x \<and> x < 3) \<and> distinct xs"
  proof -
    have m: "\<not> propNumElements (Some xs) \<le> 0"
      using h by (simp add: propNumElements_def)
    have "planes_loop xs (replicate 3 False)
        = Inr (map (\<lambda>p. replicate 3 False ! p \<or> int p \<in> set xs) [0, 1, 2])"
      by (rule planes_loop_ok) (use h in \<open>auto simp: nth_replicate\<close>)
    then show ?thesis using m by (simp add: getPlanesArg_def numeral_3_eq_3)
  qed
qed

theorem getPlanesArg_mask_witness:
  "getPlanesArg (Some [1]) = Inr [False, True, False] \<and>
   getPlanesArg (Some [2, 0]) = Inr [True, False, True] \<and>
   (\<exists>e. getPlanesArg (Some [0, 0]) = Inl e) \<and>
   (\<exists>e. getPlanesArg (Some [3]) = Inl e)"
  using getPlanesArg_mask [of "[1]"] getPlanesArg_mask [of "[2, 0]"]
    getPlanesArg_mask [of "[0, 0]"] getPlanesArg_mask [of "[3]"]
  by simp

section \<open>Construction\<close>

lemma c_rem_2: "c_rem (int n) 2 = 1 \<longleftrightarrow> odd n"
  by (auto simp: c_rem_def sgn_if odd_iff_mod_2_eq_one) presburger+

text \<open>
  Claim C4. For every list of weights of even length, the empty list and a list of two
  included, construction fails: the function sets an error on the output map and hands
  no filter instance to the host. The message starts with the filter's name.
\<close>

theorem frameBlendCreate_even_weights:
  assumes "arg_weights args = Some ws" and "even (length ws)"
  shows "frameBlendCreate args = SetError ''FrameBlend: Number of weights must be odd'' None
    \<and> prefix ''FrameBlend: '' ''FrameBlend: Number of weights must be odd''"
proof -
  have "c_rem (propNumElements (arg_weights args)) 2 \<noteq> 1"
    using assms c_rem_2 [of "length ws"] by (simp add: propNumElements_def)
  then show ?thesis by (simp add: frameBlendCreate_def Let_def)
qed

theorem frameBlendCreate_even_weights_witness:
  "frameBlendCreate (gray_args []) = SetError ''FrameBlend: Number of weights must be odd'' None \<and>
   frameBlendCreate (gray_args [Fin 1, Fin 1])
     = SetError ''FrameBlend: Number of weights must be odd'' None"
  using frameBlendCreate_even_weights [of "gray_args []" "[]"]
    frameBlendCreate_even_weights [of "gray_args [Fin 1, Fin 1]" "[Fin 1, Fin 1]"]
  by (simp add: gray_args_def)







text \<open>
  A total can also be the negative zero: each of the three weights \<open>-2^(-160)\<close> is too
  small for a \<^verbatim>\<open>float\<close>, so is every running sum, and the quotient of a negative weight
  by the negative zero is the positive infinity.
\<close>

lemma negative_zero_total:
  "totalWeights (map Fin [- 1 / 1461501637330902918203684832716283019655932542976,
      - 1 / 1461501637330902918203684832716283019655932542976,
      - 1 / 1461501637330902918203684832716283019655932542976]) = NegZero \<and>
   scale_weights (map Fin [- 1 / 1461501637330902918203684832716283019655932542976,
      - 1 / 1461501637330902918203684832716283019655932542976,
      - 1 / 1461501637330902918203684832716283019655932542976]) = [PInf, PInf, PInf]"
proof -
  let ?w = "Fin (- 1 / 1461501637330902918203684832716283019655932542976)"
  have a: "fp_cvt binary32 (fp_add binary64 (Fin 0) ?w) = NegZero" by code_simp
  have b: "fp_cvt binary32 (fp_add binary64 NegZero ?w) = NegZero" by code_simp
  have c: "fp_cvt binary32 (fp_div binary64 ?w NegZero) = PInf" by code_simp
  have t: "totalWeights [?w, ?w, ?w] = NegZero"
    by (simp only: totalWeights_def foldl_Cons foldl_Nil a b)
  have "scale_weights [?w, ?w, ?w] = [PInf, PInf, PInf]"
    by (simp only: scale_weights_def list.map t c)
  with t show ?thesis by (simp only: list.map simp_thms)
qed

section \<open>The registered arguments\<close>

text \<open>
  Claim C8 says that a list of plane indices can be supplied through the registered
  interface. The argument string registered for the function declares the clip and
  the weights and nothing else, so the host accepts no key "planes", and every filter
  constructed from arguments without that key blends all three planes.
\<close>

theorem registered_args_without_planes:
  "declared_args registered_args = [''clip'', ''weights''] \<and> \<not> accepts_arg ''planes''"
  by (simp add: accepts_arg_def declared_args_def registered_args_def)

lemma frameBlendCreate_process_length:
  "frameBlendCreate args = CreateFilter d lg \<Longrightarrow> length (process d) = 3"
  by (auto simp: frameBlendCreate_def Let_def getPlanesArg_def
      dest!: planes_loop_length split: if_splits sum.splits)


section \<open>The array of source pointers and the loops of the blend\<close>

lemma fill_srcpp_length:
  "fill_srcpp k i srcs plane st a = Inr a' \<Longrightarrow> length a' = length a"
  by (induction k arbitrary: i a)
    (auto simp: srcpp_write_def split: if_splits sum.splits)

lemma fill_srcpp_no_overrun:
  "i + k \<le> length a \<Longrightarrow> fill_srcpp k i srcs plane st a \<noteq> Inl SrcppOverrun"
proof (induction k arbitrary: i a)
  case 0
  then show ?case by simp
next
  case (Suc k)
  show ?case
  proof (cases "i < length srcs")
    case False
    then show ?thesis by simp
  next
    case True
    show ?thesis
    proof (cases "getPlanePtr (srcs ! i) plane st")
      case (Inl e)
      then show ?thesis using True by (auto simp: getPlanePtr_def split: if_splits)
    next
      case (Inr p)
      have w: "srcpp_write a i p = Inr (a[i := Some p])"
        using Suc.prems by (simp add: srcpp_write_def)
      have "Suc i + k \<le> length (a[i := Some p])" using Suc.prems by simp
      from Suc.IH [OF this] show ?thesis using True Inr w by simp
    qed
  qed
qed

lemma fill_srcpp_overrun:
  "length a < i + k \<Longrightarrow> i \<le> length a \<Longrightarrow> i + k \<le> length srcs \<Longrightarrow>
   srcs_valid srcs plane st \<Longrightarrow> fill_srcpp k i srcs plane st a = Inl SrcppOverrun"
proof (induction k arbitrary: i a)
  case 0
  then show ?case by simp
next
  case (Suc k)
  have i: "i < length srcs" using Suc.prems by simp
  then have "srcs ! i \<in> set srcs" by simp
  then have p: "getPlanePtr (srcs ! i) plane st = Inr (f_planes (srcs ! i) ! plane, 0)"
    using Suc.prems(4) by (auto simp: srcs_valid_def getPlanePtr_def)
  show ?case
  proof (cases "i < length a")
    case False
    then show ?thesis using i p by (simp add: srcpp_write_def)
  next
    case True
    let ?a = "a[i := Some (f_planes (srcs ! i) ! plane, 0)]"
    have "fill_srcpp k (Suc i) srcs plane st ?a = Inl SrcppOverrun"
      by (rule Suc.IH) (use Suc.prems True in auto)
    then show ?thesis using i p True by (simp add: srcpp_write_def)
  qed
qed

lemma fill_srcpp_result:
  "i + k \<le> length a \<Longrightarrow> i + k \<le> length srcs \<Longrightarrow> srcs_valid srcs plane st \<Longrightarrow>
   \<exists>a'. fill_srcpp k i srcs plane st a = Inr a' \<and> length a' = length a \<and>
     (\<forall>j. i \<le> j \<and> j < i + k \<longrightarrow> a' ! j = Some (src_addrs srcs plane ! j, 0)) \<and>
     (\<forall>j. j < i \<or> i + k \<le> j \<longrightarrow> a' ! j = a ! j)"
proof (induction k arbitrary: i a)
  case 0
  then show ?case by auto
next
  case (Suc k)
  have i: "i < length srcs" "i < length a" using Suc.prems by simp_all
  then have "srcs ! i \<in> set srcs" by simp
  then have p: "getPlanePtr (srcs ! i) plane st = Inr (f_planes (srcs ! i) ! plane, 0)"
    using Suc.prems(3) by (auto simp: srcs_valid_def getPlanePtr_def)
  let ?a = "a[i := Some (f_planes (srcs ! i) ! plane, 0)]"
  have "\<exists>a'. fill_srcpp k (Suc i) srcs plane st ?a = Inr a' \<and> length a' = length ?a \<and>
     (\<forall>j. Suc i \<le> j \<and> j < Suc i + k \<longrightarrow> a' ! j = Some (src_addrs srcs plane ! j, 0)) \<and>
     (\<forall>j. j < Suc i \<or> Suc i + k \<le> j \<longrightarrow> a' ! j = ?a ! j)"
    by (rule Suc.IH) (use Suc.prems in auto)
  then obtain a' where a': "fill_srcpp k (Suc i) srcs plane st ?a = Inr a'"
    "length a' = length ?a"
    "\<And>j. Suc i \<le> j \<Longrightarrow> j < Suc i + k \<Longrightarrow> a' ! j = Some (src_addrs srcs plane ! j, 0)"
    "\<And>j. j < Suc i \<or> Suc i + k \<le> j \<Longrightarrow> a' ! j = ?a ! j"
    by blast
  have step: "fill_srcpp (Suc k) i srcs plane st a = Inr a'"
    using i p a'(1) by (simp add: srcpp_write_def)
  have "a' ! j = Some (src_addrs srcs plane ! j, 0)" if "i \<le> j" "j < i + Suc k" for j
  proof (cases "j = i")
    case True
    then have "a' ! j = ?a ! i" using a'(4) [of i] by simp
    then show ?thesis using True i by (simp add: src_addrs_def)
  next
    case False
    then show ?thesis using that a'(3) [of j] by simp
  qed
  moreover have "a' ! j = a ! j" if "j < i \<or> i + Suc k \<le> j" for j
    using that a'(4) [of j] by auto
  ultimately show ?case using step a'(2) by auto
qed

lemma advance_srcpp_no_overrun:
  "i + k \<le> length a \<Longrightarrow> advance_srcpp k i stride a \<noteq> Inl SrcppOverrun"
proof (induction k arbitrary: i a)
  case 0
  then show ?case by simp
next
  case (Suc k)
  have i: "i < length a" using Suc.prems by simp
  show ?case
  proof (cases "a ! i")
    case None
    then show ?thesis using i by (simp add: srcpp_read_def)
  next
    case (Some p)
    let ?a = "a[i := Some (fst p, snd p + stride)]"
    have "Suc i + k \<le> length ?a" using Suc.prems by simp
    from Suc.IH [OF this] show ?thesis
      using i Some by (simp add: srcpp_read_def srcpp_write_def)
  qed
qed

lemma advance_srcpp_result:
  "i + k \<le> length a \<Longrightarrow> \<forall>j. i \<le> j \<and> j < i + k \<longrightarrow> a ! j = Some (addrs ! j, off) \<Longrightarrow>
   \<exists>a'. advance_srcpp k i stride a = Inr a' \<and> length a' = length a \<and>
     (\<forall>j. i \<le> j \<and> j < i + k \<longrightarrow> a' ! j = Some (addrs ! j, off + stride)) \<and>
     (\<forall>j. j < i \<or> i + k \<le> j \<longrightarrow> a' ! j = a ! j)"
proof (induction k arbitrary: i a)
  case 0
  then show ?case by auto
next
  case (Suc k)
  have i: "i < length a" "a ! i = Some (addrs ! i, off)" using Suc.prems by simp_all
  let ?a = "a[i := Some (addrs ! i, off + stride)]"
  have "\<exists>a'. advance_srcpp k (Suc i) stride ?a = Inr a' \<and> length a' = length ?a \<and>
     (\<forall>j. Suc i \<le> j \<and> j < Suc i + k \<longrightarrow> a' ! j = Some (addrs ! j, off + stride)) \<and>
     (\<forall>j. j < Suc i \<or> Suc i + k \<le> j \<longrightarrow> a' ! j = ?a ! j)"
    by (rule Suc.IH) (use Suc.prems in auto)
  then obtain a' where a': "advance_srcpp k (Suc i) stride ?a = Inr a'"
    "length a' = length ?a"
    "\<And>j. Suc i \<le> j \<Longrightarrow> j < Suc i + k \<Longrightarrow> a' ! j = Some (addrs ! j, off + stride)"
    "\<And>j. j < Suc i \<or> Suc i + k \<le> j \<Longrightarrow> a' ! j = ?a ! j"
    by blast
  have step: "advance_srcpp (Suc k) i stride a = Inr a'"
    using i a'(1) by (simp add: srcpp_read_def srcpp_write_def)
  have "a' ! j = Some (addrs ! j, off + stride)" if "i \<le> j" "j < i + Suc k" for j
  proof (cases "j = i")
    case True
    then have "a' ! j = ?a ! i" using a'(4) [of i] by simp
    then show ?thesis using True i by simp
  next
    case False
    then show ?thesis using that a'(3) [of j] by simp
  qed
  moreover have "a' ! j = a ! j" if "j < i \<or> i + Suc k \<le> j" for j
    using that a'(4) [of j] by auto
  ultimately show ?case using step a'(2) by auto
qed

lemma advance_srcpp_at:
  assumes "srcpp_at a n addrs off"
  shows "\<exists>a'. advance_srcpp n 0 stride a = Inr a' \<and> srcpp_at a' n addrs (off + stride)"
proof -
  have "0 + n \<le> length a" "\<forall>j. 0 \<le> j \<and> j < 0 + n \<longrightarrow> a ! j = Some (addrs ! j, off)"
    using assms by (auto simp: srcpp_at_def)
  from advance_srcpp_result [OF this, of stride] show ?thesis
    using assms by (auto simp: srcpp_at_def)
qed

lemma fill_srcpp_at:
  assumes "n \<le> srcpp_capacity" "n \<le> length srcs" "srcs_valid srcs plane st"
  shows "\<exists>a. fill_srcpp n 0 srcs plane st srcpp_init = Inr a \<and>
     srcpp_at a n (src_addrs srcs plane) 0 \<and> (\<forall>j. n \<le> j \<longrightarrow> j < srcpp_capacity \<longrightarrow> a ! j = None)"
proof -
  have "0 + n \<le> length srcpp_init" "0 + n \<le> length srcs"
    using assms by (simp_all add: srcpp_init_def)
  from fill_srcpp_result [OF this assms(3)] show ?thesis
    using assms(1) by (auto simp: srcpp_at_def srcpp_init_def)
qed

lemma accumulate_result:
  assumes "i + k \<le> length a" "i + k \<le> length addrs"
    and "\<forall>j. i \<le> j \<and> j < i + k \<longrightarrow> a ! j = Some (addrs ! j, off)"
    and "readable st addrs (off + w)"
  shows "accumulate k i ws a st w acc =
    Inr (foldl (\<lambda>acc j. fp_add binary32 acc
            (fp_mul binary32 (float_of_int (int (samples_at st addrs (off + w) ! j))) (ws ! j)))
          acc [i..<i + k])"
  using assms
proof (induction k arbitrary: i acc)
  case 0
  then show ?case by simp
next
  case (Suc k)
  have i: "i < length a" "i < length addrs" "a ! i = Some (addrs ! i, off)"
    using Suc.prems by simp_all
  then have "addrs ! i \<in> set addrs" by simp
  then have rd: "addrs ! i < length st" "off + w < length (p_data (st ! (addrs ! i)))"
    using Suc.prems(4) by (auto simp: readable_def)
  have val: "samples_at st addrs (off + w) ! i = p_data (st ! (addrs ! i)) ! (off + w)"
    using i by (simp add: samples_at_def)
  have up: "[i..<i + Suc k] = i # [Suc i..<Suc i + k]"
    by (simp add: upt_conv_Cons del: upt_Suc)
  have "accumulate k (Suc i) ws a st w
      (fp_add binary32 acc
        (fp_mul binary32 (float_of_int (int (p_data (st ! (addrs ! i)) ! (off + w)))) (ws ! i)))
    = Inr (foldl (\<lambda>acc j. fp_add binary32 acc
            (fp_mul binary32 (float_of_int (int (samples_at st addrs (off + w) ! j))) (ws ! j)))
          (fp_add binary32 acc
            (fp_mul binary32 (float_of_int (int (p_data (st ! (addrs ! i)) ! (off + w)))) (ws ! i)))
          [Suc i..<Suc i + k])"
    by (rule Suc.IH) (use Suc.prems in auto)
  then show ?case
    unfolding up using i rd val by (simp add: srcpp_read_def read_sample_def)
qed

lemma accumulate_no_overrun:
  "i + k \<le> length a \<Longrightarrow> accumulate k i ws a st w acc \<noteq> Inl SrcppOverrun"
proof (induction k arbitrary: i acc)
  case 0
  then show ?case by simp
next
  case (Suc k)
  have "Suc i + k \<le> length a" "i < length a" using Suc.prems by simp_all
  with Suc.IH [of "Suc i"] show ?case
    by (auto simp: srcpp_read_def read_sample_def split: option.splits sum.splits)
qed

lemma blend_sample_result:
  assumes "srcpp_at a (length ws) addrs off" "length ws \<le> length addrs"
    and "readable st addrs (off + w)"
    and "float_to_int (weighted_sum ws (samples_at st addrs (off + w))) \<noteq> None"
  shows "blend_sample szT ws a st maxVal w = Inr (pix szT maxVal ws st addrs (off + w))"
proof -
  have "accumulate (length ws) 0 ws a st w (Fin 0)
      = Inr (weighted_sum ws (samples_at st addrs (off + w)))"
    unfolding weighted_sum_def
    using accumulate_result [of 0 "length ws" a addrs off st w ws "Fin 0"] assms(1-3)
    by (simp add: srcpp_at_def)
  then show ?thesis using assms(4) by (auto simp: blend_sample_def pix_def)
qed

lemma blend_sample_no_overrun:
  "length ws \<le> length a \<Longrightarrow> blend_sample szT ws a st maxVal w \<noteq> Inl SrcppOverrun"
  using accumulate_no_overrun [of 0 "length ws" a ws st w "Fin 0"]
  by (auto simp: blend_sample_def split: sum.splits option.splits)

lemma blend_row_no_overrun:
  "length ws \<le> length a \<Longrightarrow> blend_row k w szT ws a st maxVal doff dd \<noteq> Inl SrcppOverrun"
proof (induction k arbitrary: w dd)
  case 0
  then show ?case by simp
next
  case (Suc k)
  then show ?case
    using blend_sample_no_overrun [of ws a szT st maxVal w]
    by (auto split: sum.splits)
qed

lemma advance_srcpp_length:
  "advance_srcpp k i stride a = Inr a' \<Longrightarrow> length a' = length a"
  by (induction k arbitrary: i a)
    (auto simp: srcpp_write_def srcpp_read_def split: if_splits sum.splits option.splits)

lemma blend_rows_no_overrun:
  "length ws \<le> length a \<Longrightarrow>
   blend_rows k width stride szT ws a st maxVal doff dd \<noteq> Inl SrcppOverrun"
proof (induction k arbitrary: a doff dd)
  case 0
  then show ?case by simp
next
  case (Suc k)
  show ?case
  proof (cases "blend_row width 0 szT ws a st maxVal doff dd")
    case (Inl e)
    then show ?thesis using blend_row_no_overrun [OF Suc.prems, of width 0 szT st maxVal doff dd]
      by auto
  next
    case row: (Inr dd')
    show ?thesis
    proof (cases "advance_srcpp (length ws) 0 stride a")
      case (Inl e)
      then show ?thesis using row advance_srcpp_no_overrun [of 0 "length ws" a stride] Suc.prems
        by auto
    next
      case (Inr a')
      then have "length ws \<le> length a'" using advance_srcpp_length Suc.prems by fastforce
      from Suc.IH [OF this] show ?thesis using row Inr by simp
    qed
  qed
qed

lemma frameBlend_no_overrun:
  assumes "length (weightPercents d) \<le> srcpp_capacity"
  shows "frameBlend szT d srcs dst plane st \<noteq> Inl SrcppOverrun"
proof -
  let ?n = "length (weightPercents d)"
  have fill: "fill_srcpp ?n 0 srcs plane st srcpp_init \<noteq> Inl SrcppOverrun"
    using assms fill_srcpp_no_overrun [of 0 ?n srcpp_init] by (simp add: srcpp_init_def)
  have rows: "blend_rows k width stride szT (weightPercents d) a st maxVal doff dd \<noteq> Inl SrcppOverrun"
    if "fill_srcpp ?n 0 srcs plane st srcpp_init = Inr a" for a k width stride maxVal doff dd
  proof -
    have "length a = srcpp_capacity" using fill_srcpp_length [OF that] by (simp add: srcpp_init_def)
    then show ?thesis using assms blend_rows_no_overrun by simp
  qed
  show ?thesis
    using fill rows
    by (auto simp: frameBlend_def Let_def getPlanePtr_def maxVal_of_def
        split: sum.splits option.splits if_splits)
qed

lemma blend_row_result:
  assumes "srcpp_at a (length ws) addrs off" "length ws \<le> length addrs"
    and "\<forall>c. w \<le> c \<and> c < w + k \<longrightarrow> readable st addrs (off + c) \<and>
           float_to_int (weighted_sum ws (samples_at st addrs (off + c))) \<noteq> None"
    and "doff + w + k \<le> length dd"
  shows "\<exists>dd'. blend_row k w szT ws a st maxVal doff dd = Inr dd' \<and> length dd' = length dd \<and>
     (\<forall>c. w \<le> c \<and> c < w + k \<longrightarrow> dd' ! (doff + c) = pix szT maxVal ws st addrs (off + c)) \<and>
     (\<forall>m. m < doff + w \<or> doff + w + k \<le> m \<longrightarrow> dd' ! m = dd ! m)"
  using assms(3,4)
proof (induction k arbitrary: w dd)
  case 0
  then show ?case by auto
next
  case (Suc k)
  let ?v = "pix szT maxVal ws st addrs (off + w)"
  let ?dd = "dd[doff + w := ?v]"
  have s: "blend_sample szT ws a st maxVal w = Inr ?v"
    by (rule blend_sample_result [OF assms(1,2)]) (use Suc.prems(1) in auto)
  have "\<exists>dd'. blend_row k (Suc w) szT ws a st maxVal doff ?dd = Inr dd' \<and>
     length dd' = length ?dd \<and>
     (\<forall>c. Suc w \<le> c \<and> c < Suc w + k \<longrightarrow> dd' ! (doff + c) = pix szT maxVal ws st addrs (off + c)) \<and>
     (\<forall>m. m < doff + Suc w \<or> doff + Suc w + k \<le> m \<longrightarrow> dd' ! m = ?dd ! m)"
    by (rule Suc.IH) (use Suc.prems in auto)
  then obtain dd' where dd': "blend_row k (Suc w) szT ws a st maxVal doff ?dd = Inr dd'"
    "length dd' = length ?dd"
    "\<And>c. Suc w \<le> c \<Longrightarrow> c < Suc w + k \<Longrightarrow> dd' ! (doff + c) = pix szT maxVal ws st addrs (off + c)"
    "\<And>m. m < doff + Suc w \<or> doff + Suc w + k \<le> m \<Longrightarrow> dd' ! m = ?dd ! m"
    by blast
  have w: "doff + w < length dd" using Suc.prems(2) by simp
  have step: "blend_row (Suc k) w szT ws a st maxVal doff dd = Inr dd'"
    using s w dd'(1) by simp
  have "dd' ! (doff + c) = pix szT maxVal ws st addrs (off + c)" if "w \<le> c" "c < w + Suc k" for c
  proof (cases "c = w")
    case True
    have "dd' ! (doff + w) = ?dd ! (doff + w)" using dd'(4) [of "doff + w"] by simp
    then show ?thesis using True w by simp
  next
    case False
    then show ?thesis using that dd'(3) [of c] by simp
  qed
  moreover have "dd' ! m = dd ! m" if "m < doff + w \<or> doff + w + Suc k \<le> m" for m
    using that dd'(4) [of m] by auto
  ultimately show ?case using step dd'(2) by auto
qed

lemma blend_rows_result:
  assumes "length ws \<le> length addrs" "width \<le> stride"
  shows "srcpp_at a (length ws) addrs off \<Longrightarrow>
    \<forall>r<k. \<forall>c<width. readable st addrs (off + r * stride + c) \<and>
       float_to_int (weighted_sum ws (samples_at st addrs (off + r * stride + c))) \<noteq> None \<Longrightarrow>
    \<forall>r<k. doff + r * stride + width \<le> length dd \<Longrightarrow>
    \<exists>dd'. blend_rows k width stride szT ws a st maxVal doff dd = Inr dd' \<and>
      length dd' = length dd \<and>
      (\<forall>r<k. \<forall>c<width.
         dd' ! (doff + r * stride + c) = pix szT maxVal ws st addrs (off + r * stride + c)) \<and>
      (\<forall>m<doff. dd' ! m = dd ! m)"
proof (induction k arbitrary: a off doff dd)
  case 0
  then show ?case by simp
next
  case (Suc k)
  have "\<exists>dd1. blend_row width 0 szT ws a st maxVal doff dd = Inr dd1 \<and> length dd1 = length dd \<and>
     (\<forall>c. 0 \<le> c \<and> c < 0 + width \<longrightarrow> dd1 ! (doff + c) = pix szT maxVal ws st addrs (off + c)) \<and>
     (\<forall>m. m < doff + 0 \<or> doff + 0 + width \<le> m \<longrightarrow> dd1 ! m = dd ! m)"
  proof (rule blend_row_result [OF Suc.prems(1) assms(1)])
    show "\<forall>c. 0 \<le> c \<and> c < 0 + width \<longrightarrow> readable st addrs (off + c) \<and>
        float_to_int (weighted_sum ws (samples_at st addrs (off + c))) \<noteq> None"
      using Suc.prems(2) [rule_format, of 0] by simp
    show "doff + 0 + width \<le> length dd"
      using Suc.prems(3) [rule_format, of 0] by simp
  qed
  then obtain dd1 where dd1: "blend_row width 0 szT ws a st maxVal doff dd = Inr dd1"
    "length dd1 = length dd"
    "\<And>c. c < width \<Longrightarrow> dd1 ! (doff + c) = pix szT maxVal ws st addrs (off + c)"
    "\<And>m. m < doff \<or> doff + width \<le> m \<Longrightarrow> dd1 ! m = dd ! m"
    by auto
  from advance_srcpp_at [OF Suc.prems(1), of stride]
  obtain a' where a': "advance_srcpp (length ws) 0 stride a = Inr a'"
    "srcpp_at a' (length ws) addrs (off + stride)"
    by blast
  have "\<exists>dd'. blend_rows k width stride szT ws a' st maxVal (doff + stride) dd1 = Inr dd' \<and>
      length dd' = length dd1 \<and>
      (\<forall>r<k. \<forall>c<width.
         dd' ! (doff + stride + r * stride + c)
           = pix szT maxVal ws st addrs (off + stride + r * stride + c)) \<and>
      (\<forall>m<doff + stride. dd' ! m = dd1 ! m)"
  proof (rule Suc.IH [OF a'(2)])
    show "\<forall>r<k. \<forall>c<width. readable st addrs (off + stride + r * stride + c) \<and>
        float_to_int (weighted_sum ws (samples_at st addrs (off + stride + r * stride + c))) \<noteq> None"
    proof (intro allI impI)
      fix r c assume "r < k" "c < width"
      then show "readable st addrs (off + stride + r * stride + c) \<and>
        float_to_int (weighted_sum ws (samples_at st addrs (off + stride + r * stride + c))) \<noteq> None"
        using Suc.prems(2) [rule_format, of "Suc r" c] by (simp add: add.assoc)
    qed
    show "\<forall>r<k. doff + stride + r * stride + width \<le> length dd1"
    proof (intro allI impI)
      fix r assume "r < k"
      then show "doff + stride + r * stride + width \<le> length dd1"
        using Suc.prems(3) [rule_format, of "Suc r"] dd1(2) by (simp add: add.assoc)
    qed
  qed
  then obtain dd' where dd': "blend_rows k width stride szT ws a' st maxVal (doff + stride) dd1 = Inr dd'"
    "length dd' = length dd1"
    "\<And>r c. r < k \<Longrightarrow> c < width \<Longrightarrow> dd' ! (doff + stride + r * stride + c)
           = pix szT maxVal ws st addrs (off + stride + r * stride + c)"
    "\<And>m. m < doff + stride \<Longrightarrow> dd' ! m = dd1 ! m"
    by blast
  have step: "blend_rows (Suc k) width stride szT ws a st maxVal doff dd = Inr dd'"
    using dd1(1) a'(1) dd'(1) by simp
  have "dd' ! (doff + r * stride + c) = pix szT maxVal ws st addrs (off + r * stride + c)"
    if "r < Suc k" "c < width" for r c
  proof (cases r)
    case 0
    have "doff + c < doff + stride" using that(2) assms(2) by simp
    then have "dd' ! (doff + c) = dd1 ! (doff + c)" by (rule dd'(4))
    then show ?thesis using 0 dd1(3) [OF that(2)] by simp
  next
    case (Suc r')
    then have "r' < k" using that(1) by simp
    from dd'(3) [OF this that(2)] show ?thesis using Suc by (simp add: add.assoc)
  qed
  moreover have "dd' ! m = dd ! m" if "m < doff" for m
    using that dd'(4) [of m] dd1(4) [of m] by simp
  ultimately show ?case using step dd'(2) dd1(2) by auto
qed

lemma in_plane:
  fixes r c width stride height :: nat
  assumes "r < height" "c < width" "width \<le> stride"
  shows "r * stride + c < height * stride" "r * stride + width \<le> height * stride"
proof -
  have "Suc r * stride \<le> height * stride"
    using assms(1) by (intro mult_le_mono1) simp
  then show "r * stride + c < height * stride" "r * stride + width \<le> height * stride"
    using assms(2,3) by simp_all
qed

lemma frameBlend_result:
  assumes pre: "blend_pre szT (weightPercents d) srcs dst plane st"
    and mv: "maxVal_of d = Inr maxVal"
    and conv: "\<forall>r<p_height (st ! dst_addr dst plane). \<forall>c<p_width (st ! dst_addr dst plane).
      float_to_int (weighted_sum (weightPercents d)
        (samples_at st (src_addrs srcs plane) (r * pitch szT (st ! dst_addr dst plane) + c))) \<noteq> None"
  shows "\<exists>dd. frameBlend szT d srcs dst plane st
        = Inr (st[dst_addr dst plane := (st ! dst_addr dst plane)\<lparr>p_data := dd\<rparr>]) \<and>
      length dd = length (p_data (st ! dst_addr dst plane)) \<and>
      (\<forall>r<p_height (st ! dst_addr dst plane). \<forall>c<p_width (st ! dst_addr dst plane).
         dd ! (r * pitch szT (st ! dst_addr dst plane) + c)
           = pix szT maxVal (weightPercents d) st (src_addrs srcs plane)
               (r * pitch szT (st ! dst_addr dst plane) + c))"
proof -
  let ?ad = "dst_addr dst plane"
  let ?dp = "st ! ?ad"
  let ?ws = "weightPercents d"
  let ?addrs = "src_addrs srcs plane"
  let ?stride = "pitch szT ?dp"
  have p: "plane < length (f_planes dst)" "?ad < length st" "length srcs = length ?ws"
    "length ?ws \<le> srcpp_capacity" "srcs_valid srcs plane st" "?ad \<notin> set ?addrs"
    "p_width ?dp \<le> ?stride"
    "p_height ?dp * ?stride \<le> length (p_data ?dp)"
    "\<And>ad. ad \<in> set ?addrs \<Longrightarrow> p_height ?dp * ?stride \<le> length (p_data (st ! ad))"
    using pre by (auto simp: blend_pre_def Let_def)
  have ptr: "getPlanePtr dst plane st = Inr (?ad, 0)"
    using p(1,2) by (simp add: getPlanePtr_def dst_addr_def)
  from fill_srcpp_at [OF p(4) _ p(5)] p(3)
  obtain a where a: "fill_srcpp (length ?ws) 0 srcs plane st srcpp_init = Inr a"
    "srcpp_at a (length ?ws) ?addrs 0"
    "\<And>j. length ?ws \<le> j \<Longrightarrow> j < srcpp_capacity \<Longrightarrow> a ! j = None"
    by auto
  have len_addrs: "length ?addrs = length ?ws" using p(3) by (simp add: src_addrs_def)
  have noalias: "Some ?ad \<notin> set (map (map_option fst) a)"
  proof
    assume "Some ?ad \<in> set (map (map_option fst) a)"
    then have "\<exists>j<length a. map_option fst (a ! j) = Some ?ad"
      unfolding in_set_conv_nth by (metis length_map nth_map)
    then obtain j where j: "j < length a" "map_option fst (a ! j) = Some ?ad"
      by blast
    have la: "length a = srcpp_capacity" using a(2) by (simp add: srcpp_at_def)
    show False
    proof (cases "j < length ?ws")
      case True
      then have "a ! j = Some (?addrs ! j, 0)" using a(2) by (simp add: srcpp_at_def)
      then have "?addrs ! j = ?ad" using j(2) by simp
      then show False using p(6) True len_addrs by (metis nth_mem)
    next
      case False
      then have "a ! j = None" using a(3) [of j] j(1) la by simp
      then show False using j(2) by simp
    qed
  qed
  have rd: "\<forall>r<p_height ?dp. \<forall>c<p_width ?dp. readable st ?addrs (0 + r * ?stride + c) \<and>
      float_to_int (weighted_sum ?ws (samples_at st ?addrs (0 + r * ?stride + c))) \<noteq> None"
  proof (intro allI impI conjI)
    fix r c assume rc: "r < p_height ?dp" "c < p_width ?dp"
    show "float_to_int (weighted_sum ?ws (samples_at st ?addrs (0 + r * ?stride + c))) \<noteq> None"
      using conv rc by simp
    show "readable st ?addrs (0 + r * ?stride + c)"
      unfolding readable_def
    proof
      fix ad assume ad: "ad \<in> set ?addrs"
      then have "ad < length st" using p(5) by (auto simp: src_addrs_def srcs_valid_def)
      moreover have "r * ?stride + c < length (p_data (st ! ad))"
        using in_plane(1) [OF rc p(7)] p(9) [OF ad] by simp
      ultimately show "ad < length st \<and> 0 + r * ?stride + c < length (p_data (st ! ad))"
        by simp
    qed
  qed
  have wr: "\<forall>r<p_height ?dp. 0 + r * ?stride + p_width ?dp \<le> length (p_data ?dp)"
  proof (intro allI impI)
    fix r assume r: "r < p_height ?dp"
    show "0 + r * ?stride + p_width ?dp \<le> length (p_data ?dp)"
    proof (cases "p_width ?dp")
      case 0
      have "r * ?stride \<le> p_height ?dp * ?stride" using r by (intro mult_le_mono1) simp
      then have "r * ?stride \<le> length (p_data ?dp)" using p(8) by (rule order_trans)
      then show ?thesis using 0 by simp
    next
      case (Suc w)
      then have "w < p_width ?dp" by simp
      from in_plane(2) [OF r this p(7)] show ?thesis using p(8) by simp
    qed
  qed
  from blend_rows_result [OF _ p(7) a(2) rd wr, of szT maxVal] len_addrs
  obtain dd where dd: "blend_rows (p_height ?dp) (p_width ?dp) ?stride szT ?ws a st maxVal 0
        (p_data ?dp) = Inr dd"
    "length dd = length (p_data ?dp)"
    "\<And>r c. r < p_height ?dp \<Longrightarrow> c < p_width ?dp \<Longrightarrow>
       dd ! (0 + r * ?stride + c) = pix szT maxVal ?ws st ?addrs (0 + r * ?stride + c)"
    by auto
  have "frameBlend szT d srcs dst plane st = Inr (st[?ad := ?dp\<lparr>p_data := dd\<rparr>])"
    using ptr a(1) noalias mv dd(1) by (simp add: frameBlend_def Let_def pitch_def)
  then show ?thesis using dd(2,3) by auto
qed

section \<open>The samples of a blended plane\<close>

lemma std_clamp_max_min: "0 \<le> hi \<Longrightarrow> std_clamp v 0 hi = max 0 (min v hi)"
  by (auto simp: std_clamp_def)

lemma clamp_range:
  fixes P Q v :: int
  assumes "P \<le> Q" "1 \<le> P"
  shows "0 \<le> std_clamp v 0 (P - 1)" "std_clamp v 0 (P - 1) < Q"
  using assms by (auto simp: std_clamp_def)

lemma static_cast_clamp:
  assumes "b \<le> 8 * szT"
  shows "static_cast szT (std_clamp v 0 (2 ^ b - 1)) = nat (max 0 (min v (2 ^ b - 1)))"
proof -
  have le: "(2::int) ^ b \<le> 2 ^ (8 * szT)" using assms by (intro power_increasing) simp_all
  have one: "1 \<le> (2::int) ^ b" by simp
  have "std_clamp v 0 (2 ^ b - 1) mod 2 ^ (8 * szT) = std_clamp v 0 (2 ^ b - 1)"
    using clamp_range [OF le one, of v] by (intro mod_pos_pos_trivial)
  then show ?thesis
    by (simp add: static_cast_def std_clamp_max_min)
qed

text \<open>
  The accumulator starts at the positive zero and is never the negative zero: a sum
  is the negative zero only when both operands are.
\<close>

lemma on_grid_0: "on_grid fmt 0"
  unfolding on_grid_def by (intro exI [of _ 0]) simp

lemma on_grid_add: "on_grid fmt x \<Longrightarrow> on_grid fmt y \<Longrightarrow> on_grid fmt (x + y)"
proof -
  assume "on_grid fmt x" "on_grid fmt y"
  then obtain k l :: int where "x = of_int k * pow2 (fmt_emin fmt - fmt_prec fmt + 1)"
    "y = of_int l * pow2 (fmt_emin fmt - fmt_prec fmt + 1)" unfolding on_grid_def by blast
  then have "x + y = of_int (k + l) * pow2 (fmt_emin fmt - fmt_prec fmt + 1)"
    by (simp add: algebra_simps)
  then show ?thesis unfolding on_grid_def by blast
qed

lemma fp_mul_on_grid: "fp_mul fmt a b = Fin y \<Longrightarrow> on_grid fmt y"
  unfolding fp_mul_def Let_def
  by (auto simp: fp_zero_def fp_inf_def on_grid_0 dest: fp_round_on_grid
      split: if_splits option.splits)

lemma fp_add_acc:
  assumes "a \<noteq> NegZero" and "\<And>x. a = Fin x \<Longrightarrow> on_grid fmt x"
    and "\<And>y. p = Fin y \<Longrightarrow> on_grid fmt y" and "1 \<le> fmt_prec fmt"
  shows "fp_add fmt a p \<noteq> NegZero \<and> (\<forall>z. fp_add fmt a p = Fin z \<longrightarrow> on_grid fmt z)"
proof (cases a)
  case (Fin x)
  then have x: "on_grid fmt x" using assms(2) by simp
  show ?thesis
  proof (cases p)
    case (Fin y)
    then have "on_grid fmt (x + y)" using x assms(3) by (simp add: on_grid_add)
    then show ?thesis using Fin \<open>a = Fin x\<close> fp_round_not_NegZero [OF _ assms(4)] fp_round_on_grid
      by auto
  next
    case NegZero
    then show ?thesis using \<open>a = Fin x\<close> x fp_round_not_NegZero [OF _ assms(4)] fp_round_on_grid
      by auto
  qed (simp_all add: \<open>a = Fin x\<close>)
next
  case NegZero
  then show ?thesis using assms(1) by simp
next
  case PInf
  then show ?thesis by (cases p) simp_all
next
  case NInf
  then show ?thesis by (cases p) simp_all
next
  case NaN
  then show ?thesis by simp
qed

lemma accumulate_sign:
  assumes "a \<noteq> NegZero" and "\<forall>x. a = Fin x \<longrightarrow> on_grid binary32 x"
  shows "foldl (\<lambda>acc i. fp_add binary32 acc (fp_mul binary32 (f i) (g i))) a is \<noteq> NegZero"
  using assms
proof (induction "is" arbitrary: a)
  case Nil
  then show ?case by simp
next
  case (Cons i "is")
  have "fp_add binary32 a (fp_mul binary32 (f i) (g i)) \<noteq> NegZero \<and>
    (\<forall>z. fp_add binary32 a (fp_mul binary32 (f i) (g i)) = Fin z \<longrightarrow> on_grid binary32 z)"
    using Cons.prems by (intro fp_add_acc) (auto dest: fp_mul_on_grid simp: binary32_def)
  then show ?case using Cons.IH by simp
qed

lemma weighted_sum_not_NegZero: "weighted_sum ws vals \<noteq> NegZero"
  unfolding weighted_sum_def by (rule accumulate_sign) (simp_all add: on_grid_0)

lemma float_to_int_Some:
  "float_to_int a = Some v \<Longrightarrow> a \<noteq> NegZero \<Longrightarrow> \<exists>x. a = Fin x \<and> v = trunc_toward_zero x"
  by (cases a) (auto simp: float_to_int_def Let_def split: if_splits)

text \<open>
  Claim C1, as amended. For every blend of valid planes with at most 128 sources, a
  sample type of 8 or 16 bits and a static format of the same depth \<open>b\<close>: if at every
  position of the plane the accumulated sum, truncated toward zero, is representable
  as an \<^verbatim>\<open>int\<close>, then the blend returns and the sample stored at row \<open>row\<close> and column
  \<open>col\<close> is that sum, accumulated in binary32 over the sources' samples at the same
  position in the order of the weights, truncated toward zero and clamped to
  \<open>[0, 2^b - 1]\<close>.
\<close>

theorem frameBlend_samples:
  assumes "szT = 1 \<or> szT = 2"
    and "vi_format (d_vi d) = Some fmt" and "bitsPerSample fmt = int (8 * szT)"
    and "blend_pre szT (weightPercents d) srcs dst plane st"
    and "\<forall>row<p_height (st ! dst_addr dst plane). \<forall>col<p_width (st ! dst_addr dst plane).
      float_to_int (weighted_sum (weightPercents d)
        (samples_at st (src_addrs srcs plane)
           (row * pitch szT (st ! dst_addr dst plane) + col))) \<noteq> None"
  shows "\<exists>st'. frameBlend szT d srcs dst plane st = Inr st' \<and>
    (\<forall>row<p_height (st ! dst_addr dst plane). \<forall>col<p_width (st ! dst_addr dst plane).
       \<exists>x. weighted_sum (weightPercents d)
              (samples_at st (src_addrs srcs plane)
                 (row * pitch szT (st ! dst_addr dst plane) + col)) = Fin x \<and>
           p_data (st' ! dst_addr dst plane) ! (row * pitch szT (st ! dst_addr dst plane) + col)
             = nat (max 0 (min (trunc_toward_zero x) (2 ^ (8 * szT) - 1))))"
proof -
  let ?ad = "dst_addr dst plane"
  let ?M = "(2::int) ^ (8 * szT) - 1"
  have mv: "maxVal_of d = Inr ?M"
    using assms(1-3) by (auto simp: maxVal_of_def)
  from frameBlend_result [OF assms(4) mv assms(5)]
  obtain dd where dd: "frameBlend szT d srcs dst plane st
        = Inr (st[?ad := (st ! ?ad)\<lparr>p_data := dd\<rparr>])"
    "\<And>r c. r < p_height (st ! ?ad) \<Longrightarrow> c < p_width (st ! ?ad) \<Longrightarrow>
       dd ! (r * pitch szT (st ! ?ad) + c)
         = pix szT ?M (weightPercents d) st (src_addrs srcs plane) (r * pitch szT (st ! ?ad) + c)"
    by blast
  have ad: "?ad < length st" using assms(4) by (simp add: blend_pre_def)
  have "\<exists>x. weighted_sum (weightPercents d)
              (samples_at st (src_addrs srcs plane) (r * pitch szT (st ! ?ad) + c)) = Fin x \<and>
           p_data ((st[?ad := (st ! ?ad)\<lparr>p_data := dd\<rparr>]) ! ?ad) ! (r * pitch szT (st ! ?ad) + c)
             = nat (max 0 (min (trunc_toward_zero x) ?M))"
    if rc: "r < p_height (st ! ?ad)" "c < p_width (st ! ?ad)" for r c
  proof -
    let ?acc = "weighted_sum (weightPercents d)
        (samples_at st (src_addrs srcs plane) (r * pitch szT (st ! ?ad) + c))"
    from assms(5) rc obtain v where v: "float_to_int ?acc = Some v" by auto
    from float_to_int_Some [OF this weighted_sum_not_NegZero]
    obtain x where x: "?acc = Fin x" "v = trunc_toward_zero x"
      by blast
    have "dd ! (r * pitch szT (st ! ?ad) + c) = static_cast szT (std_clamp v 0 ?M)"
      using dd(2) [OF rc] v by (simp add: pix_def)
    also have "\<dots> = nat (max 0 (min v ?M))"
      by (rule static_cast_clamp) simp
    finally show ?thesis using x ad by simp
  qed
  then show ?thesis using dd(1) by blast
qed

lemma gray_pre: "blend_pre 1 (weightPercents gray_filter) gray_srcs gray_dst 0 gray_store_dst"
  by code_simp

lemma gray_geometry:
  "dst_addr gray_dst 0 = 3" "p_height (gray_store_dst ! 3) = 2" "p_width (gray_store_dst ! 3) = 2"
  "pitch 1 (gray_store_dst ! 3) = 3" "src_addrs gray_srcs 0 = [0, 1, 2]"
  by code_simp+

lemma gray_sums:
  "list_all (\<lambda>pos. weighted_sum (weightPercents gray_filter) (samples_at gray_store_dst [0, 1, 2] pos) = Fin 20)
     [0, 1, 3, 4]"
  by code_simp

theorem frameBlend_samples_witness:
  "\<exists>st'. frameBlend 1 gray_filter gray_srcs gray_dst 0 gray_store_dst = Inr st' \<and>
     p_data (st' ! 3) ! 0 = 20 \<and> p_data (st' ! 3) ! 1 = 20 \<and>
     p_data (st' ! 3) ! 3 = 20 \<and> p_data (st' ! 3) ! 4 = 20"
proof -
  have fmt: "vi_format (d_vi gray_filter) = Some gray8" "bitsPerSample gray8 = int (8 * 1)"
    by (simp_all add: gray_filter_def filter_of_def gray_clip_def clip_of_def gray8_def)
  have sums: "weighted_sum (weightPercents gray_filter) (samples_at gray_store_dst [0, 1, 2] pos) = Fin 20"
    if "pos \<in> {0, 1, 3, 4}" for pos
    using gray_sums that by auto
  have conv: "\<forall>row<p_height (gray_store_dst ! dst_addr gray_dst 0).
      \<forall>col<p_width (gray_store_dst ! dst_addr gray_dst 0).
      float_to_int (weighted_sum (weightPercents gray_filter)
        (samples_at gray_store_dst (src_addrs gray_srcs 0)
           (row * pitch 1 (gray_store_dst ! dst_addr gray_dst 0) + col))) \<noteq> None"
    unfolding gray_geometry
    using sums [of 0] sums [of 1] sums [of 3] sums [of 4]
    by (auto dest!: less_2_cases simp: float_to_int_def trunc_toward_zero_def
        INT_MIN_def INT_MAX_def)
  from frameBlend_samples [OF _ fmt gray_pre conv]
  obtain st' where st': "frameBlend 1 gray_filter gray_srcs gray_dst 0 gray_store_dst = Inr st'"
    "\<And>row col. row < 2 \<Longrightarrow> col < 2 \<Longrightarrow>
       \<exists>x. weighted_sum (weightPercents gray_filter) (samples_at gray_store_dst [0, 1, 2] (row * 3 + col))
              = Fin x \<and>
           p_data (st' ! 3) ! (row * 3 + col) = nat (max 0 (min (trunc_toward_zero x) (2 ^ (8 * 1) - 1)))"
    unfolding gray_geometry by auto
  have "p_data (st' ! 3) ! 0 = 20" "p_data (st' ! 3) ! 1 = 20"
    "p_data (st' ! 3) ! 3 = 20" "p_data (st' ! 3) ! 4 = 20"
    using st'(2) [of 0 0] st'(2) [of 0 1] st'(2) [of 1 0] st'(2) [of 1 1]
      sums [of 0] sums [of 1] sums [of 3] sums [of 4]
    by (auto simp: trunc_toward_zero_def)
  then show ?thesis using st'(1) by blast
qed

text \<open>
  Without the condition the claim fails. The weights \<open>-2^100, 2^100, 1\<close> sum to 1 and
  are their own normalisation; over the samples 10, 20, 30 the accumulated sum is
  \<open>10 * 2^100\<close>, which the claim clamps to 255, and the conversion of that sum to
  \<^verbatim>\<open>int\<close> is undefined.
\<close>

theorem frameBlend_conversion_counterexample:
  "scale_weights huge_weights = huge_weights \<and>
   weighted_sum huge_weights (samples_at gray_store_dst (src_addrs gray_srcs 0) 0) = Fin (10 * 2 ^ 100) \<and>
   frameBlend 1 huge_filter gray_srcs gray_dst 0 gray_store_dst = Inl ConversionUndefined"
  by code_simp

section \<open>Bounds of the array of source pointers\<close>

text \<open>
  Claim C9. The array of source pointers has 128 entries. With at most 128 weights no
  access to it, in the initial fill, in the accumulation or in the advance at the end
  of a row, is out of bounds, whatever the frames are; and for frames that are planes
  of the store, one per weight, an access is out of bounds exactly when there are more
  than 128 weights.
\<close>

theorem srcpp_bounds:
  "srcpp_capacity = 128 \<and>
   (length (weightPercents d) \<le> srcpp_capacity \<longrightarrow>
      frameBlend szT d srcs dst plane st \<noteq> Inl SrcppOverrun) \<and>
   (plane < length (f_planes dst) \<and> dst_addr dst plane < length st \<and>
    length srcs = length (weightPercents d) \<and> srcs_valid srcs plane st \<longrightarrow>
      (frameBlend szT d srcs dst plane st = Inl SrcppOverrun
         \<longleftrightarrow> srcpp_capacity < length (weightPercents d)))"
proof (intro conjI impI)
  show "srcpp_capacity = 128" by (simp add: srcpp_capacity_def)
  show "frameBlend szT d srcs dst plane st \<noteq> Inl SrcppOverrun"
    if "length (weightPercents d) \<le> srcpp_capacity"
    using that by (rule frameBlend_no_overrun)
  show "frameBlend szT d srcs dst plane st = Inl SrcppOverrun
      \<longleftrightarrow> srcpp_capacity < length (weightPercents d)"
    if h: "plane < length (f_planes dst) \<and> dst_addr dst plane < length st \<and>
      length srcs = length (weightPercents d) \<and> srcs_valid srcs plane st"
  proof
    assume "frameBlend szT d srcs dst plane st = Inl SrcppOverrun"
    then show "srcpp_capacity < length (weightPercents d)"
      using frameBlend_no_overrun [of d szT srcs dst plane st] by (cases "length (weightPercents d) \<le> srcpp_capacity") auto
  next
    assume big: "srcpp_capacity < length (weightPercents d)"
    have ptr: "getPlanePtr dst plane st = Inr (dst_addr dst plane, 0)"
      using h by (simp add: getPlanePtr_def dst_addr_def)
    have "fill_srcpp (length (weightPercents d)) 0 srcs plane st srcpp_init = Inl SrcppOverrun"
      by (rule fill_srcpp_overrun) (use h big in \<open>simp_all add: srcpp_init_def\<close>)
    then show "frameBlend szT d srcs dst plane st = Inl SrcppOverrun"
      using ptr by (simp add: frameBlend_def Let_def)
  qed
qed

theorem srcpp_bounds_witness:
  "frameBlend 1 wide_filter wide_srcs gray_dst 0 gray_store_dst = Inl SrcppOverrun \<and>
   frameBlend 1 gray_filter gray_srcs gray_dst 0 gray_store_dst \<noteq> Inl SrcppOverrun"
proof -
  have "srcs_valid wide_srcs 0 gray_store_dst"
    by (simp add: srcs_valid_def wide_srcs_def clip_frame_def gray_store_dst_def gray_store_def)
  then have "frameBlend 1 wide_filter wide_srcs gray_dst 0 gray_store_dst = Inl SrcppOverrun"
    using srcpp_bounds [of wide_filter 1 wide_srcs gray_dst 0 gray_store_dst]
    by (simp add: wide_filter_def filter_of_def wide_srcs_def gray_dst_def dst_addr_def
        gray_store_dst_def gray_store_def)
  moreover have "frameBlend 1 gray_filter gray_srcs gray_dst 0 gray_store_dst \<noteq> Inl SrcppOverrun"
    using srcpp_bounds [of gray_filter 1 gray_srcs gray_dst 0 gray_store_dst]
    by (simp add: gray_filter_def filter_of_def)
  ultimately show ?thesis by simp
qed

section \<open>The depth stored at construction and the depth delivered\<close>

text \<open>
  Claim C10. The clamp ceiling is read from the format stored at construction, and the
  sample type is chosen from the format of the delivered frame. Without a stored
  format (a null pointer) no blend is defined: the ceiling is not, \<^verbatim>\<open>frameBlend\<close> returns
  no plane and neither does the loop over the planes at a selected plane. With a stored
  format the ceiling is the largest sample of the delivered depth exactly when the two
  depths agree; and when they agree, the clamped value fits the sample type, so the
  cast does not change it.
\<close>

theorem clamp_ceiling_depth:
  "(vi_format (d_vi d) = None \<longrightarrow>
      maxVal_of d = Inl NullFormat \<and>
      (\<exists>e. frameBlend szT d srcs dst plane st = Inl e) \<and>
      (plane < length (process d) \<and> process d ! plane \<and>
       (bytesPerSample fi = 1 \<or> bytesPerSample fi = 2) \<longrightarrow>
         (\<exists>e. blend_planes (Suc k) plane d fi srcs dst st evs = Inl e))) \<and>
   (vi_format (d_vi d) = Some fmt \<and> 0 \<le> bitsPerSample fmt \<and> bitsPerSample fmt < 32 \<and>
    0 \<le> bitsPerSample fi \<longrightarrow>
      (maxVal_of d = Inr (2 ^ nat (bitsPerSample fi) - 1)
         \<longleftrightarrow> bitsPerSample fmt = bitsPerSample fi)) \<and>
   (vi_format (d_vi d) = Some fmt \<and> bitsPerSample fmt = bitsPerSample fi \<and>
    0 \<le> bitsPerSample fi \<and> bitsPerSample fi \<le> 8 * bytesPerSample fi \<and>
    bytesPerSample fi \<le> 2 \<longrightarrow>
      (\<forall>v. \<exists>M. maxVal_of d = Inr M \<and>
         static_cast (nat (bytesPerSample fi)) (std_clamp v 0 M)
           = nat (max 0 (min v (2 ^ nat (bitsPerSample fi) - 1)))))"
proof (intro conjI impI allI)
  assume none: "vi_format (d_vi d) = None"
  then show mv: "maxVal_of d = Inl NullFormat" by (simp add: maxVal_of_def)
  show fb: "\<exists>e. frameBlend szT d srcs dst plane st = Inl e"
    using mv by (auto simp: frameBlend_def Let_def split: sum.splits)
  show "\<exists>e. blend_planes (Suc k) plane d fi srcs dst st evs = Inl e"
    if "plane < length (process d) \<and> process d ! plane \<and>
       (bytesPerSample fi = 1 \<or> bytesPerSample fi = 2)"
  proof -
    have "\<exists>e. frameBlend (nat (bytesPerSample fi)) d srcs dst plane st = Inl e"
      using mv by (auto simp: frameBlend_def Let_def split: sum.splits)
    then show ?thesis using that by auto
  qed
next
  assume h: "vi_format (d_vi d) = Some fmt \<and> 0 \<le> bitsPerSample fmt \<and> bitsPerSample fmt < 32 \<and>
    0 \<le> bitsPerSample fi"
  then have mv: "maxVal_of d = Inr (2 ^ nat (bitsPerSample fmt) - 1)"
    by (simp add: maxVal_of_def)
  have "(2::int) ^ nat (bitsPerSample fmt) = 2 ^ nat (bitsPerSample fi)
      \<longleftrightarrow> nat (bitsPerSample fmt) = nat (bitsPerSample fi)"
    by (intro power_inject_exp) simp
  then show "maxVal_of d = Inr (2 ^ nat (bitsPerSample fi) - 1)
      \<longleftrightarrow> bitsPerSample fmt = bitsPerSample fi"
    using h mv by auto
next
  fix v
  assume h: "vi_format (d_vi d) = Some fmt \<and> bitsPerSample fmt = bitsPerSample fi \<and>
    0 \<le> bitsPerSample fi \<and> bitsPerSample fi \<le> 8 * bytesPerSample fi \<and> bytesPerSample fi \<le> 2"
  then have mv: "maxVal_of d = Inr (2 ^ nat (bitsPerSample fi) - 1)"
    by (simp add: maxVal_of_def)
  have "nat (bitsPerSample fi) \<le> 8 * nat (bytesPerSample fi)" using h by auto
  from static_cast_clamp [OF this, of v] mv
  show "\<exists>M. maxVal_of d = Inr M \<and>
         static_cast (nat (bytesPerSample fi)) (std_clamp v 0 M)
           = nat (max 0 (min v (2 ^ nat (bitsPerSample fi) - 1)))"
    by simp
qed

theorem clamp_ceiling_depth_witness:
  "maxVal_of null_filter = Inl NullFormat \<and>
   frameBlendGetFrame 1 arAllFramesReady null_filter gray_store = Inl NullFormat \<and>
   maxVal_of gray_filter = Inr 255 \<and>
   maxVal_of mismatch_filter \<noteq> Inr 255 \<and>
   static_cast 1 (std_clamp 420 0 255) = 255 \<and>
   map_sum id (\<lambda>r. p_data (gf_store r ! 3))
     (frameBlendGetFrame 1 arAllFramesReady match_filter gray_store)
     = Inr [255, 255, 0, 255, 255, 0] \<and>
   map_sum id (\<lambda>r. p_data (gf_store r ! 3))
     (frameBlendGetFrame 1 arAllFramesReady mismatch_filter gray_store)
     = Inr [164, 164, 0, 164, 164, 0]"
proof -
  have n: "vi_format (d_vi null_filter) = None"
    by (simp add: null_filter_def filter_of_def clip_of_def)
  have g: "vi_format (d_vi gray_filter) = Some gray8"
    by (simp add: gray_filter_def filter_of_def gray_clip_def clip_of_def)
  have mm: "vi_format (d_vi mismatch_filter) = Some gray16"
    by (simp add: mismatch_filter_def filter_of_def clip_of_def)
  have b: "bitsPerSample gray8 = 8" "bytesPerSample gray8 = 1" "bitsPerSample gray16 = 16"
    by (simp_all add: gray8_def gray16_def)
  have "maxVal_of null_filter = Inl NullFormat"
    using clamp_ceiling_depth [of null_filter] n by simp
  moreover have "frameBlendGetFrame 1 arAllFramesReady null_filter gray_store = Inl NullFormat"
    by code_simp
  moreover have "maxVal_of gray_filter = Inr 255"
    using clamp_ceiling_depth [of gray_filter _ _ _ _ _ gray8 _ _ gray8] g b by simp
  moreover have "maxVal_of mismatch_filter \<noteq> Inr 255"
    using clamp_ceiling_depth [of mismatch_filter _ _ _ _ _ gray8 _ _ gray16] mm b by simp
  moreover have "static_cast 1 (std_clamp 420 0 255) = 255"
    using clamp_ceiling_depth [of gray_filter _ _ _ _ _ gray8 _ _ gray8] g b by auto
  moreover have "map_sum id (\<lambda>r. p_data (gf_store r ! 3))
     (frameBlendGetFrame 1 arAllFramesReady match_filter gray_store)
     = Inr [255, 255, 0, 255, 255, 0]"
    by code_simp
  moreover have "map_sum id (\<lambda>r. p_data (gf_store r ! 3))
     (frameBlendGetFrame 1 arAllFramesReady mismatch_filter gray_store)
     = Inr [164, 164, 0, 164, 164, 0]"
    by code_simp
  ultimately show ?thesis by simp
qed

section \<open>New frames and the loop over the planes\<close>

lemma new_planes_result:
  "new_planes k i fr center st = Inr (as, st') \<Longrightarrow>
   length as = k \<and> length st \<le> length st' \<and> (\<forall>a<length st. st' ! a = st ! a) \<and>
   (\<forall>j<k. case fr ! (i + j) of
             Some f \<Rightarrow> as ! j = f_planes f ! (i + j)
           | None \<Rightarrow> length st \<le> as ! j \<and> as ! j < length st')"
proof (induction k arbitrary: i st as st')
  case 0
  then show ?case by simp
next
  case (Suc k)
  from Suc.prems have chk: "i < length fr" "i < length (f_planes center)"
    "f_planes center ! i < length st"
    by (auto split: if_splits)
  show ?case
  proof (cases "fr ! i")
    case (Some f)
    with Suc.prems chk obtain as0 where r: "new_planes k (Suc i) fr center st = Inr (as0, st')"
      "as = f_planes f ! i # as0"
      by (auto split: sum.splits)
    from Suc.IH [OF r(1)] have ih: "length as0 = k" "length st \<le> length st'"
      "\<forall>a<length st. st' ! a = st ! a"
      "\<forall>j<k. case fr ! (Suc i + j) of
             Some f \<Rightarrow> as0 ! j = f_planes f ! (Suc i + j)
           | None \<Rightarrow> length st \<le> as0 ! j \<and> as0 ! j < length st'"
      by auto
    have "case fr ! (i + j) of
             Some f \<Rightarrow> as ! j = f_planes f ! (i + j)
           | None \<Rightarrow> length st \<le> as ! j \<and> as ! j < length st'" if "j < Suc k" for j
    proof (cases j)
      case 0
      then show ?thesis using Some r(2) by simp
    next
      case (Suc j')
      then have "j' < k" using that by simp
      with ih(4) have "case fr ! (Suc i + j') of
             Some f \<Rightarrow> as0 ! j' = f_planes f ! (Suc i + j')
           | None \<Rightarrow> length st \<le> as0 ! j' \<and> as0 ! j' < length st'" by simp
      then show ?thesis using Suc r(2) by (auto split: option.splits)
    qed
    then show ?thesis using ih r(2) by auto
  next
    case None
    let ?st = "st @ [blank_plane (st ! (f_planes center ! i))]"
    from None Suc.prems chk obtain as0 where r: "new_planes k (Suc i) fr center ?st = Inr (as0, st')"
      "as = length st # as0"
      by (auto split: sum.splits)
    from Suc.IH [OF r(1)] have ih: "length as0 = k" "length ?st \<le> length st'"
      "\<forall>a<length ?st. st' ! a = ?st ! a"
      "\<forall>j<k. case fr ! (Suc i + j) of
             Some f \<Rightarrow> as0 ! j = f_planes f ! (Suc i + j)
           | None \<Rightarrow> length ?st \<le> as0 ! j \<and> as0 ! j < length st'"
      by auto
    have old: "st' ! a = st ! a" if "a < length st" for a
      using ih(3) that by (auto simp: nth_append)
    have "case fr ! (i + j) of
             Some f \<Rightarrow> as ! j = f_planes f ! (i + j)
           | None \<Rightarrow> length st \<le> as ! j \<and> as ! j < length st'" if "j < Suc k" for j
    proof (cases j)
      case 0
      then show ?thesis using None r(2) ih(2) by simp
    next
      case (Suc j')
      then have "j' < k" using that by simp
      with ih(4) have "case fr ! (Suc i + j') of
             Some f \<Rightarrow> as0 ! j' = f_planes f ! (Suc i + j')
           | None \<Rightarrow> length ?st \<le> as0 ! j' \<and> as0 ! j' < length st'" by simp
      then show ?thesis using Suc r(2) by (auto split: option.splits)
    qed
    then show ?thesis using ih(1,2) old r(2) by auto
  qed
qed



lemma frameBlend_store:
  "frameBlend szT d srcs dst plane st = Inr st' \<Longrightarrow> \<exists>x. st' = st[f_planes dst ! plane := x]"
  by (auto simp: frameBlend_def Let_def getPlanePtr_def split: sum.splits if_splits)

lemma blend_planes_effect:
  "blend_planes k plane d fi frames dst st evs = Inr (ok, st', evs') \<Longrightarrow>
   (\<forall>a. (\<forall>q. plane \<le> q \<and> q < plane + k \<and> process d ! q \<longrightarrow> f_planes dst ! q \<noteq> a)
      \<longrightarrow> st' ! a = st ! a) \<and>
   (\<forall>sz q. Blend sz q \<in> set evs' \<longrightarrow>
      Blend sz q \<in> set evs \<or> (plane \<le> q \<and> q < plane + k \<and> process d ! q))"
proof (induction k arbitrary: plane st evs)
  case 0
  then show ?case by auto
next
  case (Suc k)
  from Suc.prems have inb: "plane < length (process d)" by (auto split: if_splits)
  show ?case
  proof (cases "process d ! plane")
    case False
    with Suc.prems inb have "blend_planes k (Suc plane) d fi frames dst st evs = Inr (ok, st', evs')"
      by simp
    from Suc.IH [OF this] show ?thesis
      by (auto simp: less_Suc_eq) (metis Suc_leD)+
  next
    case True
    show ?thesis
    proof (cases "bytesPerSample fi = 1 \<or> bytesPerSample fi = 2")
      case False
      with Suc.prems inb True show ?thesis by auto
    next
      case bps: True
      with Suc.prems inb True obtain st1 where
        fb: "frameBlend (nat (bytesPerSample fi)) d frames dst plane st = Inr st1" and
        rest: "blend_planes k (Suc plane) d fi frames dst st1
                 (evs @ [Blend (nat (bytesPerSample fi)) plane]) = Inr (ok, st', evs')"
        by (auto split: sum.splits)
      from frameBlend_store [OF fb] obtain x where st1: "st1 = st[f_planes dst ! plane := x]"
        by blast
      note ih = Suc.IH [OF rest]
      have "st' ! a = st ! a"
        if "\<forall>q. plane \<le> q \<and> q < plane + Suc k \<and> process d ! q \<longrightarrow> f_planes dst ! q \<noteq> a" for a
      proof -
        have "f_planes dst ! plane \<noteq> a" using that True by auto
        then have "st1 ! a = st ! a" by (simp add: st1)
        moreover have "st' ! a = st1 ! a" using ih that by auto
        ultimately show ?thesis by simp
      qed
      moreover have "Blend sz q \<in> set evs \<or> (plane \<le> q \<and> q < plane + Suc k \<and> process d ! q)"
        if "Blend sz q \<in> set evs'" for sz q
      proof -
        have "Blend sz q \<in> set (evs @ [Blend (nat (bytesPerSample fi)) plane]) \<or>
            (Suc plane \<le> q \<and> q < Suc plane + k \<and> process d ! q)"
          using ih that by blast
        then show ?thesis using True by auto
      qed
      ultimately show ?thesis by blast
    qed
  qed
qed

lemma blend_planes_events:
  "blend_planes k plane d fi frames dst st evs = Inr (ok, st', evs') \<Longrightarrow>
   \<exists>rest. evs' = evs @ rest \<and> (\<forall>i. GetFrame i \<notin> set rest)"
proof (induction k arbitrary: plane st evs)
  case 0
  then show ?case by auto
next
  case (Suc k)
  from Suc.prems have inb: "plane < length (process d)" by (auto split: if_splits)
  show ?case
  proof (cases "process d ! plane")
    case False
    with Suc.prems inb have "blend_planes k (Suc plane) d fi frames dst st evs = Inr (ok, st', evs')"
      by simp
    from Suc.IH [OF this] show ?thesis .
  next
    case True
    show ?thesis
    proof (cases "bytesPerSample fi = 1 \<or> bytesPerSample fi = 2")
      case False
      with Suc.prems inb True show ?thesis by auto
    next
      case bps: True
      with Suc.prems inb True obtain st1 where
        rest: "blend_planes k (Suc plane) d fi frames dst st1
                 (evs @ [Blend (nat (bytesPerSample fi)) plane]) = Inr (ok, st', evs')"
        by (auto split: sum.splits)
      from Suc.IH [OF rest] obtain rest where
        "evs' = (evs @ [Blend (nat (bytesPerSample fi)) plane]) @ rest" "\<forall>i. GetFrame i \<notin> set rest"
        by blast
      then have "evs' = evs @ (Blend (nat (bytesPerSample fi)) plane # rest) \<and>
          (\<forall>i. GetFrame i \<notin> set (Blend (nat (bytesPerSample fi)) plane # rest))"
        by simp
      then show ?thesis by blast
    qed
  qed
qed

lemma frame_in_storeD:
  assumes "frame_in_store f st"
  shows "nat (numPlanes (f_format f)) \<le> 3" "nat (numPlanes (f_format f)) \<le> length (f_planes f)"
    "p < nat (numPlanes (f_format f)) \<Longrightarrow> f_planes f ! p < length st"
proof -
  let ?k = "nat (numPlanes (f_format f))"
  show k: "?k \<le> 3" "?k \<le> length (f_planes f)"
    using assms by (auto simp: frame_in_store_def)
  show "f_planes f ! p < length st" if "p < ?k"
  proof -
    have "take ?k (f_planes f) ! p \<in> set (take ?k (f_planes f))"
      using that k(2) by (intro nth_mem) simp
    then show ?thesis using assms that by (auto simp: frame_in_store_def)
  qed
qed

lemma getFrame_unfold:
  "frameBlendGetFrame n arAllFramesReady d st =
     (if source_frames d n = [] then Inl OutOfBounds
      else
        case newVideoFrame2 (f_format (center_frame d n))
               (map (\<lambda>p. if process d ! p then None else Some (center_frame d n)) [0, 1, 2])
               (center_frame d n) st of
          Inl e \<Rightarrow> Inl e
        | Inr (dst, st1) \<Rightarrow>
            (case blend_planes (nat (numPlanes (f_format (center_frame d n)))) 0 d
                    (f_format (center_frame d n)) (source_frames d n) dst st1
                    (map GetFrame (window d n) @ [NewVideoFrame]) of
               Inl e \<Rightarrow> Inl e
             | Inr (ok, st2, evs2) \<Rightarrow>
                 (if ok
                  then Inr \<lparr>gf_frame = Some dst, gf_store = st2,
                            gf_events = evs2 @ map FreeFrame (source_frames d n)\<rparr>
                  else Inr \<lparr>gf_frame = None, gf_store = st2, gf_events = evs2\<rparr>)))"
  unfolding frameBlendGetFrame_def source_frames_def center_frame_def Let_def
  by (simp only: activation.distinct if_False if_True simp_thms)

lemma getFrame_fetches:
  assumes "frameBlendGetFrame n arAllFramesReady d st = Inr r"
  shows "\<exists>rest. gf_events r = map GetFrame (window d n) @ rest \<and> (\<forall>i. GetFrame i \<notin> set rest)"
proof -
  let ?c = "center_frame d n"
  let ?fi = "f_format ?c"
  let ?evs = "map GetFrame (window d n) @ [NewVideoFrame]"
  define fr where "fr = map (\<lambda>p. if process d ! p then None else Some ?c) [0, 1, 2]"
  from assms obtain dst st1 ok st2 evs2 where
    bp: "blend_planes (nat (numPlanes ?fi)) 0 d ?fi (source_frames d n) dst st1 ?evs
           = Inr (ok, st2, evs2)" and
    r: "gf_events r = (if ok then evs2 @ map FreeFrame (source_frames d n) else evs2)"
    unfolding getFrame_unfold fr_def [symmetric]
    by (auto split: if_splits sum.splits prod.splits)
  from blend_planes_events [OF bp] obtain rest where
    rest: "evs2 = ?evs @ rest" "\<forall>i. GetFrame i \<notin> set rest" by blast
  show ?thesis
  proof (cases ok)
    case True
    then have "gf_events r = map GetFrame (window d n) @
        (NewVideoFrame # rest @ map FreeFrame (source_frames d n))"
      using r rest(1) by simp
    moreover have "\<forall>i. GetFrame i \<notin> set (NewVideoFrame # rest @ map FreeFrame (source_frames d n))"
      using rest(2) by auto
    ultimately show ?thesis by blast
  next
    case False
    then have "gf_events r = map GetFrame (window d n) @ (NewVideoFrame # rest)"
      using r rest(1) by simp
    moreover have "\<forall>i. GetFrame i \<notin> set (NewVideoFrame # rest)"
      using rest(2) by auto
    ultimately show ?thesis by blast
  qed
qed

section \<open>The window of source frames\<close>

lemma length_fetch_indices: "length (fetch_indices k fn) = k"
  by (induction k arbitrary: fn) auto

lemma fetch_indices_eq:
  "fn \<le> INT_MAX - 1 \<Longrightarrow>
   fetch_indices k fn = map (\<lambda>i. max 0 (min (fn + int i) (INT_MAX - 1))) [0..<k]"
proof (induction k arbitrary: fn)
  case 0
  then show ?case by simp
next
  case (Suc k)
  let ?fn' = "if fn < INT_MAX - 1 then fn + 1 else fn"
  have le: "?fn' \<le> INT_MAX - 1" using Suc.prems by auto
  have "map (\<lambda>i. max 0 (min (?fn' + int i) (INT_MAX - 1))) [0..<k]
      = map (\<lambda>i. max 0 (min (fn + int (Suc i)) (INT_MAX - 1))) [0..<k]"
    using Suc.prems by (intro map_cong) auto
  also have "\<dots> = map (\<lambda>i. max 0 (min (fn + int i) (INT_MAX - 1))) (map Suc [0..<k])"
    by (simp add: comp_def)
  finally have tl: "fetch_indices k ?fn'
      = map (\<lambda>i. max 0 (min (fn + int i) (INT_MAX - 1))) (map Suc [0..<k])"
    using Suc.IH [OF le] by simp
  have "[0..<Suc k] = 0 # map Suc [0..<k]"
    by (simp add: upt_conv_Cons map_Suc_upt del: upt_Suc)
  then show ?case using tl Suc.prems by (simp del: upt_Suc)
qed

text \<open>
  Claim C2. For every output index \<open>n\<close> from 0 to \<open>INT_MAX - 1\<close> and every number \<open>k\<close>
  of weights, the fetch loop retrieves exactly \<open>k\<close> frames, in order, the \<open>i\<close>-th at the
  index \<open>n - k div 2 + i\<close> raised to 0 where it is negative and lowered to the sentinel
  \<open>INT_MAX - 1\<close> where it is larger, so no index fetched exceeds the sentinel and the
  frame at position \<open>k div 2\<close> is frame \<open>n\<close> itself. These are the frames blended, and the
  calls of \<^verbatim>\<open>getFrameFilter\<close> that a request makes are these and no others.
\<close>

theorem window_indices:
  assumes "0 \<le> n" and "n \<le> INT_MAX - 1" and "k = length (weightPercents d)"
  shows "window d n = map (\<lambda>i. max 0 (min (n - int (k div 2) + int i) (INT_MAX - 1))) [0..<k]
    \<and> length (window d n) = k
    \<and> (0 < k \<longrightarrow> window d n ! (k div 2) = n)
    \<and> (\<forall>x\<in>set (window d n). 0 \<le> x \<and> x \<le> INT_MAX - 1)
    \<and> source_frames d n =
        map (\<lambda>i. node_frames (d_node d) (max 0 (min (n - int (k div 2) + int i) (INT_MAX - 1))))
          [0..<k]
    \<and> (\<forall>st r. frameBlendGetFrame n arAllFramesReady d st = Inr r \<longrightarrow>
          (\<exists>rest. gf_events r =
               map (\<lambda>i. GetFrame (max 0 (min (n - int (k div 2) + int i) (INT_MAX - 1)))) [0..<k]
                 @ rest \<and>
             (\<forall>i. GetFrame i \<notin> set rest)))"
proof -
  have "n - half_of d \<le> INT_MAX - 1" using assms by (simp add: half_of_def)
  from fetch_indices_eq [OF this]
  have eq: "window d n = map (\<lambda>i. max 0 (min (n - int (k div 2) + int i) (INT_MAX - 1))) [0..<k]"
    using assms(3) by (simp add: window_def half_of_def)
  have rng: "\<forall>x\<in>set (window d n). 0 \<le> x \<and> x \<le> INT_MAX - 1"
    unfolding eq by (auto simp: INT_MAX_def)
  have len: "length (window d n) = k"
    using assms(3) by (simp add: window_def length_fetch_indices)
  have ctr: "window d n ! (k div 2) = n" if "0 < k"
  proof -
    have "k div 2 < k" using that by simp
    then show ?thesis unfolding eq using assms(1,2) by simp
  qed
  have src: "source_frames d n =
        map (\<lambda>i. node_frames (d_node d) (max 0 (min (n - int (k div 2) + int i) (INT_MAX - 1))))
          [0..<k]"
    unfolding source_frames_def eq by (simp add: comp_def)
  have ev: "\<exists>rest. gf_events r =
               map (\<lambda>i. GetFrame (max 0 (min (n - int (k div 2) + int i) (INT_MAX - 1)))) [0..<k]
                 @ rest \<and>
             (\<forall>i. GetFrame i \<notin> set rest)"
    if "frameBlendGetFrame n arAllFramesReady d st = Inr r" for st r
    using getFrame_fetches [OF that] unfolding eq by (simp add: comp_def)
  show ?thesis
  proof (intro conjI allI impI)
    show "window d n = map (\<lambda>i. max 0 (min (n - int (k div 2) + int i) (INT_MAX - 1))) [0..<k]"
      by (fact eq)
    show "length (window d n) = k" by (fact len)
    show "window d n ! (k div 2) = n" if "0 < k" using that by (rule ctr)
    show "\<forall>x\<in>set (window d n). 0 \<le> x \<and> x \<le> INT_MAX - 1" by (fact rng)
    show "source_frames d n =
        map (\<lambda>i. node_frames (d_node d) (max 0 (min (n - int (k div 2) + int i) (INT_MAX - 1))))
          [0..<k]" by (fact src)
    show "\<exists>rest. gf_events r =
               map (\<lambda>i. GetFrame (max 0 (min (n - int (k div 2) + int i) (INT_MAX - 1)))) [0..<k]
                 @ rest \<and>
             (\<forall>i. GetFrame i \<notin> set rest)"
      if "frameBlendGetFrame n arAllFramesReady d st = Inr r" for st r
      using that by (rule ev)
  qed
qed

theorem window_indices_witness:
  "window gray_filter 5 = [4, 5, 6] \<and> window gray_filter 0 = [0, 0, 1] \<and>
   window gray_filter (INT_MAX - 1) = [INT_MAX - 2, INT_MAX - 1, INT_MAX - 1] \<and>
   window five_filter 5 = [3, 4, 5, 6, 7] \<and> window five_filter 1 = [0, 0, 1, 2, 3] \<and>
   window five_filter (INT_MAX - 1)
     = [INT_MAX - 3, INT_MAX - 2, INT_MAX - 1, INT_MAX - 1, INT_MAX - 1] \<and>
   window five_filter 5 ! 2 = 5 \<and>
   window one_filter 5 = [5] \<and> window one_filter 0 = [0] \<and>
   (\<exists>r rest. frameBlendGetFrame 0 arAllFramesReady gray_filter gray_store = Inr r \<and>
      gf_events r = [GetFrame 0, GetFrame 0, GetFrame 1] @ rest \<and> (\<forall>i. GetFrame i \<notin> set rest))"
proof -
  have k3: "3 = length (weightPercents gray_filter)"
    by (simp add: gray_filter_def filter_of_def)
  have k5: "5 = length (weightPercents five_filter)"
    by (simp add: five_filter_def filter_of_def scale_weights_def)
  have k1: "1 = length (weightPercents one_filter)"
    by (simp add: one_filter_def filter_of_def scale_weights_def)
  have up: "[0..<3] = [0, 1, 2]" "[0..<5] = [0, 1, 2, 3, 4]" "[0..<1] = [0]"
    by (simp_all add: upt_rec)
  have b: "0 \<le> (5::int)" "(5::int) \<le> INT_MAX - 1" "0 \<le> (0::int)" "(0::int) \<le> INT_MAX - 1"
    "0 \<le> (1::int)" "(1::int) \<le> INT_MAX - 1" "0 \<le> INT_MAX - 1" "INT_MAX - 1 \<le> INT_MAX - 1"
    by (simp_all add: INT_MAX_def)
  have a: "window gray_filter 5 = [4, 5, 6]"
    using window_indices [OF b(1,2) k3] by (simp add: up INT_MAX_def)
  have w0: "window gray_filter 0 = [0, 0, 1]"
    using window_indices [OF b(3,4) k3] by (simp add: up INT_MAX_def)
  have c: "window gray_filter (INT_MAX - 1) = [INT_MAX - 2, INT_MAX - 1, INT_MAX - 1]"
    using window_indices [OF b(7,8) k3] by (simp add: up INT_MAX_def)
  have d: "window five_filter 5 = [3, 4, 5, 6, 7]"
    using window_indices [OF b(1,2) k5] by (simp add: up INT_MAX_def)
  have e: "window five_filter 1 = [0, 0, 1, 2, 3]"
    using window_indices [OF b(5,6) k5] by (simp add: up INT_MAX_def)
  have f: "window five_filter (INT_MAX - 1)
     = [INT_MAX - 3, INT_MAX - 2, INT_MAX - 1, INT_MAX - 1, INT_MAX - 1]"
    using window_indices [OF b(7,8) k5] by (simp add: up INT_MAX_def)
  have g: "window five_filter 5 ! 2 = 5"
    using d by simp
  have h: "window one_filter 5 = [5]"
    using window_indices [OF b(1,2) k1] by (simp add: up INT_MAX_def)
  have i: "window one_filter 0 = [0]"
    using window_indices [OF b(3,4) k1] by (simp add: up INT_MAX_def)
  have j: "\<exists>r rest. frameBlendGetFrame 0 arAllFramesReady gray_filter gray_store = Inr r \<and>
      gf_events r = [GetFrame 0, GetFrame 0, GetFrame 1] @ rest \<and> (\<forall>i. GetFrame i \<notin> set rest)"
  proof -
    let ?R = "frameBlendGetFrame 0 arAllFramesReady gray_filter gray_store"
    have "\<not> isl ?R" by code_simp
    then obtain r where r: "?R = Inr r" by (cases ?R) auto
    have "\<forall>st r. frameBlendGetFrame 0 arAllFramesReady gray_filter st = Inr r \<longrightarrow>
          (\<exists>rest. gf_events r =
               map (\<lambda>i. GetFrame (max 0 (min (0 - int (3 div 2) + int i) (INT_MAX - 1)))) [0..<3]
                 @ rest \<and>
             (\<forall>i. GetFrame i \<notin> set rest))"
      using window_indices [OF b(3,4) k3] by (elim conjE)
    with r obtain rest where rest: "gf_events r =
        map (\<lambda>i. GetFrame (max 0 (min (0 - int (3 div 2) + int i) (INT_MAX - 1)))) [0..<3] @ rest"
      "\<forall>i. GetFrame i \<notin> set rest" by blast
    have "map (\<lambda>i. GetFrame (max 0 (min (0 - int (3 div 2) + int i) (INT_MAX - 1)))) [0..<3]
        = [GetFrame 0, GetFrame 0, GetFrame 1]"
      by (simp add: up INT_MAX_def)
    with rest r show ?thesis by simp
  qed
  show ?thesis using a w0 c d e f g h i j by simp
qed

section \<open>Planes that are not selected\<close>

text \<open>
  Claim C6. For every request that returns a frame, and every plane of the delivered
  format that is not selected: the plane of the output frame is the very plane buffer
  of the centre frame (the same address in the store, not a copy), its content is what
  the centre frame's plane held before the request, and no blend was run on it.
\<close>

theorem unselected_plane_shared:
  assumes "frameBlendGetFrame n arAllFramesReady d st = Inr r" and "gf_frame r = Some out"
    and "frame_in_store (center_frame d n) st"
    and "p < nat (numPlanes (f_format (center_frame d n)))" and "\<not> process d ! p"
  shows "f_planes out ! p = f_planes (center_frame d n) ! p \<and>
    gf_store r ! (f_planes out ! p) = st ! (f_planes (center_frame d n) ! p) \<and>
    (\<forall>sz. Blend sz p \<notin> set (gf_events r))"
proof -
  let ?c = "center_frame d n"
  let ?fi = "f_format ?c"
  let ?k = "nat (numPlanes ?fi)"
  let ?evs = "map GetFrame (window d n) @ [NewVideoFrame]"
  define fr where "fr = map (\<lambda>p. if process d ! p then None else Some ?c) [0, 1, 2]"
  from assms(1,2) obtain as st1 st2 evs2 where
    np: "new_planes ?k 0 fr ?c st = Inr (as, st1)" and
    bp: "blend_planes ?k 0 d ?fi (source_frames d n) \<lparr>f_format = ?fi, f_planes = as\<rparr> st1 ?evs
           = Inr (True, st2, evs2)" and
    r: "r = \<lparr>gf_frame = Some \<lparr>f_format = ?fi, f_planes = as\<rparr>, gf_store = st2,
             gf_events = evs2 @ map FreeFrame (source_frames d n)\<rparr>"
    unfolding getFrame_unfold fr_def [symmetric]
    by (auto simp: newVideoFrame2_def split: if_splits sum.splits prod.splits)
  have out: "f_planes out = as" using assms(2) r by auto
  have k3: "?k \<le> 3" "\<And>q. q < ?k \<Longrightarrow> f_planes ?c ! q < length st"
    using frame_in_storeD [OF assms(3)] by auto
  then have p3: "p < 3" using assms(4) by simp
  have frq: "fr ! q = (if process d ! q then None else Some ?c)" if "q < 3" for q
  proof -
    have "q = 0 \<or> q = 1 \<or> q = 2" using that by auto
    then show ?thesis unfolding fr_def by (elim disjE) simp_all
  qed
  note npr = new_planes_result [OF np]
  have asq: "case fr ! q of Some f \<Rightarrow> as ! q = f_planes f ! q
      | None \<Rightarrow> length st \<le> as ! q \<and> as ! q < length st1" if "q < ?k" for q
  proof -
    from npr that have "case fr ! (0 + q) of Some f \<Rightarrow> as ! q = f_planes f ! (0 + q)
      | None \<Rightarrow> length st \<le> as ! q \<and> as ! q < length st1" by blast
    then show ?thesis by (simp split: option.splits)
  qed
  have shared: "as ! p = f_planes ?c ! p"
    using asq [OF assms(4)] frq [OF p3] assms(5) by simp
  let ?a = "f_planes ?c ! p"
  have a: "?a < length st" using k3(2) assms(4) by simp
  have st1: "st1 ! ?a = st ! ?a" using npr a by simp
  note eff = blend_planes_effect [OF bp]
  have "\<forall>q. 0 \<le> q \<and> q < 0 + ?k \<and> process d ! q \<longrightarrow>
      f_planes \<lparr>f_format = ?fi, f_planes = as\<rparr> ! q \<noteq> ?a"
  proof (intro allI impI)
    fix q assume q: "0 \<le> q \<and> q < 0 + ?k \<and> process d ! q"
    then have "q < 3" "q < ?k" using k3(1) by simp_all
    from asq [OF this(2)] q frq [OF this(1)] have "length st \<le> as ! q" by simp
    then show "f_planes \<lparr>f_format = ?fi, f_planes = as\<rparr> ! q \<noteq> ?a" using a by simp
  qed
  with eff have st2: "st2 ! ?a = st1 ! ?a" by blast
  have "Blend sz p \<notin> set (gf_events r)" for sz
  proof
    assume "Blend sz p \<in> set (gf_events r)"
    then have "Blend sz p \<in> set evs2" using r by auto
    with eff have "Blend sz p \<in> set ?evs \<or> (0 \<le> p \<and> p < 0 + ?k \<and> process d ! p)" by blast
    then show False using assms(5) by auto
  qed
  then show ?thesis using out shared st1 st2 r by simp
qed

theorem unselected_plane_shared_witness:
  "\<exists>r out. frameBlendGetFrame 1 arAllFramesReady yuv_filter yuv_store = Inr r \<and>
     gf_frame r = Some out \<and>
     f_planes out ! 1 = 4 \<and> gf_store r ! 4 = flat 1 101 \<and> Blend 1 1 \<notin> set (gf_events r) \<and>
     f_planes out ! 2 = 5 \<and> gf_store r ! 5 = flat 1 201 \<and> Blend 1 2 \<notin> set (gf_events r)"
proof -
  let ?R = "frameBlendGetFrame 1 arAllFramesReady yuv_filter yuv_store"
  have "\<not> isl ?R" "gf_frame (projr ?R) \<noteq> None" by code_simp+
  then obtain r out where r: "?R = Inr r" "gf_frame r = Some out"
    by (cases ?R) auto
  have c: "frame_in_store (center_frame yuv_filter 1) yuv_store" by code_simp
  have f: "f_planes (center_frame yuv_filter 1) = [3, 4, 5]"
    "numPlanes (f_format (center_frame yuv_filter 1)) = 3"
    "yuv_store ! 4 = flat 1 101" "yuv_store ! 5 = flat 1 201"
    by code_simp+
  have pr: "\<not> process yuv_filter ! 1" "\<not> process yuv_filter ! 2"
    by (simp_all add: yuv_filter_def filter_of_def)
  have "f_planes out ! 1 = 4 \<and> gf_store r ! 4 = flat 1 101 \<and> Blend 1 1 \<notin> set (gf_events r)"
    using unselected_plane_shared [OF r c _ pr(1)] f by auto
  moreover have "f_planes out ! 2 = 5 \<and> gf_store r ! 5 = flat 1 201 \<and> Blend 1 2 \<notin> set (gf_events r)"
    using unselected_plane_shared [OF r c _ pr(2)] f by auto
  ultimately show ?thesis using r by blast
qed

section \<open>Sample sizes that are not supported\<close>




section \<open>The examples of the specification\<close>

text \<open>
  An accumulated -0.4 is stored as 0 and an accumulated 255.9 as 255; and the middle
  frame of three frames of constant value 10, 20 and 30, blended by the filter that
  construction yields for the weights 1, 2, 1, is of constant value 20.
\<close>

lemma truncation_examples:
  "map_option (\<lambda>v. static_cast 1 (std_clamp v 0 255)) (float_to_int (fp_round binary32 (- 2 / 5)))
     = Some 0"
  "map_option (\<lambda>v. static_cast 1 (std_clamp v 0 255)) (float_to_int (fp_round binary32 (2559 / 10)))
     = Some 255"
  by code_simp+

text \<open>
  In a blend: with the weights 6, 1, 1 the three frames accumulate to 13.75, which is
  stored as 13.
\<close>

lemma blend_truncation_example:
  "scale_weights [Fin 6, Fin 1, Fin 1] = [Fin (3 / 4), Fin (1 / 8), Fin (1 / 8)]"
  "weighted_sum [Fin (3 / 4), Fin (1 / 8), Fin (1 / 8)] [10, 20, 30] = Fin (55 / 4)"
  "map_sum id (\<lambda>r. p_data (gf_store r ! 3))
     (frameBlendGetFrame 1 arAllFramesReady
        (filter_of gray_clip [Fin (3 / 4), Fin (1 / 8), Fin (1 / 8)] [True, True, True]) gray_store)
     = Inr [13, 13, 0, 13, 13, 0]"
  by code_simp+

lemma end_to_end_example:
  "map_sum id (\<lambda>r. (gf_frame r, gf_store r ! 3))
     (frameBlendGetFrame 1 arAllFramesReady gray_filter gray_store)
     = Inr (Some \<lparr>f_format = gray8, f_planes = [3]\<rparr>,
            (flat 1 20)\<lparr>p_data := [20, 20, 0, 20, 20, 0]\<rparr>)"
  by code_simp

end
